theory Spec2Isabelle
  imports Main "HOL-Library.Word" "HOL-Library.Mapping"
begin

unbundle bit_operations_syntax

section \<open>ConcurrentLRUCache.h: data model\<close>

text \<open>
  The machine integers of the header: \<open>size_t\<close> is 64 bits wide, \<open>uint32_t\<close> and
  \<open>int32_t\<close> are 32 bits wide. A signed value is a word read through \<open>sint\<close>.
\<close>

type_synonym size_t = "64 word"
type_synonym uint32_t = "32 word"
type_synonym int32_t = "32 word"

text \<open>
  Class \<open>LRU\<close> (lines 149-252) has three members: \<open>map_\<close>, an unordered map from a key
  to the pair of its value and an iterator into \<open>list_\<close>; \<open>list_\<close>, the keys from the
  most recently used (front) to the least recently used (back); and \<open>capacity_\<close>.

  The iterator kept beside a value is written at two places only, lines 193 and 217, both
  times as \<open>list_.begin()\<close> directly after \<open>list_.push_front(key)\<close>; a \<open>std::list\<close>
  iterator stays valid until its own node is erased. So the iterator stored under a key
  always designates the list node that holds this very key, and the model keeps the value
  only: erasing "the node of \<open>key\<close>" is \<open>remove1 key\<close>, and comparing the iterator with
  \<open>list_.begin()\<close> asks whether \<open>key\<close> is the first element.

  A name cannot end in an underscore here, so the members \<open>map_\<close>, \<open>list_\<close> and
  \<open>capacity_\<close> are the fields \<open>LRU_map\<close>, \<open>LRU_list\<close> and \<open>LRU_capacity\<close>.
\<close>

record ('k, 'v) LRU =
  LRU_map :: "('k, 'v) mapping"
  LRU_list :: "'k list"
  LRU_capacity :: size_t

text \<open>
  \<open>StatusOr<V>\<close> as the header uses it: a value, \<open>Status::Error()\<close> or
  \<open>Status::Inserted()\<close>.
\<close>

datatype 'v StatusOr = Value 'v | StatusError | StatusInserted

section \<open>Class LRU\<close>

text \<open>
  An operation whose behaviour C++ leaves undefined on some state returns \<open>None\<close> there.
  In class \<open>LRU\<close> this is the private \<open>evict()\<close>, which decrements \<open>list_.end()\<close> and
  dereferences the result: on an empty list there is no such node.
\<close>

definition LRU_new :: "size_t \<Rightarrow> ('k, 'v) LRU" where
  "LRU_new capacity = \<lparr>LRU_map = Mapping.empty, LRU_list = [], LRU_capacity = capacity\<rparr>"

definition LRU_size :: "('k, 'v) LRU \<Rightarrow> nat" where
  "LRU_size s = Mapping.size (LRU_map s)"

definition LRU_empty :: "('k, 'v) LRU \<Rightarrow> bool" where
  "LRU_empty s = Mapping.is_empty (LRU_map s)"

definition LRU_contains :: "'k \<Rightarrow> ('k, 'v) LRU \<Rightarrow> bool" where
  "LRU_contains key s = (Mapping.lookup (LRU_map s) key \<noteq> None)"

text \<open>The private \<open>evict()\<close> of lines 240-246: drop the last key of the list.\<close>

definition LRU_evict_oldest :: "('k, 'v) LRU \<Rightarrow> ('k, 'v) LRU option" where
  "LRU_evict_oldest s =
     (case LRU_list s of
        [] \<Rightarrow> None
      | _ # _ \<Rightarrow>
          Some (s\<lparr>LRU_map := Mapping.delete (last (LRU_list s)) (LRU_map s),
                  LRU_list := butlast (LRU_list s)\<rparr>))"

text \<open>\<open>insert\<close>, lines 182-196.\<close>

definition LRU_insert :: "'k \<Rightarrow> 'v \<Rightarrow> ('k, 'v) LRU \<Rightarrow> ('k, 'v) LRU option" where
  "LRU_insert key val s =
     (case Mapping.lookup (LRU_map s) key of
        Some _ \<Rightarrow> Some s
      | None \<Rightarrow>
          (case (if unat (LRU_capacity s) \<le> LRU_size s then LRU_evict_oldest s else Some s) of
             None \<Rightarrow> None
           | Some s' \<Rightarrow>
               Some (s'\<lparr>LRU_list := key # LRU_list s',
                        LRU_map := Mapping.update key val (LRU_map s')\<rparr>)))"

text \<open>
  \<open>get\<close>, lines 198-221: the result and the state afterwards. The value is not changed by
  the move to the front (line 217 stores the same value with the new iterator).
\<close>

definition LRU_get :: "'k \<Rightarrow> ('k, 'v) LRU \<Rightarrow> 'v option \<times> ('k, 'v) LRU" where
  "LRU_get key s =
     (case Mapping.lookup (LRU_map s) key of
        None \<Rightarrow> (None, s)
      | Some val \<Rightarrow>
          (Some val,
           if LRU_list s \<noteq> [] \<and> hd (LRU_list s) = key then s
           else s\<lparr>LRU_list := key # remove1 key (LRU_list s)\<rparr>))"

text \<open>\<open>evict(key)\<close>, lines 226-232.\<close>

definition LRU_evict :: "'k \<Rightarrow> ('k, 'v) LRU \<Rightarrow> ('k, 'v) LRU" where
  "LRU_evict key s =
     (case Mapping.lookup (LRU_map s) key of
        None \<Rightarrow> s
      | Some _ \<Rightarrow>
          s\<lparr>LRU_list := remove1 key (LRU_list s), LRU_map := Mapping.delete key (LRU_map s)\<rparr>)"

text \<open>\<open>clear\<close>, lines 234-237.\<close>

definition LRU_clear :: "('k, 'v) LRU \<Rightarrow> ('k, 'v) LRU" where
  "LRU_clear s = s\<lparr>LRU_map := Mapping.empty, LRU_list := []\<rparr>"

section \<open>Class Bucket\<close>

text \<open>
  A \<open>Bucket\<close> (lines 72-122) owns one \<open>LRU\<close> and a mutex that every operation holds from
  its first to its last statement. The model is sequential, so a bucket is its \<open>lru_\<close>.
\<close>

type_synonym ('k, 'v) Bucket = "('k, 'v) LRU"

definition Bucket_new :: "size_t \<Rightarrow> ('k, 'v) Bucket" where
  "Bucket_new capacity = LRU_new capacity"

definition Bucket_contains :: "'k \<Rightarrow> ('k, 'v) Bucket \<Rightarrow> bool" where
  "Bucket_contains key b = LRU_contains key b"

definition Bucket_insert :: "'k \<Rightarrow> 'v \<Rightarrow> ('k, 'v) Bucket \<Rightarrow> ('k, 'v) Bucket option" where
  "Bucket_insert key val b = LRU_insert key val b"

definition Bucket_get :: "'k \<Rightarrow> ('k, 'v) Bucket \<Rightarrow> 'v StatusOr \<times> ('k, 'v) Bucket" where
  "Bucket_get key b =
     (case LRU_get key b of
        (None, b') \<Rightarrow> (StatusError, b')
      | (Some v, b') \<Rightarrow> (Value v, b'))"

definition Bucket_putIfAbsent ::
  "'k \<Rightarrow> 'v \<Rightarrow> ('k, 'v) Bucket \<Rightarrow> ('v StatusOr \<times> ('k, 'v) Bucket) option" where
  "Bucket_putIfAbsent key val b =
     (case LRU_get key b of
        (None, b') \<Rightarrow>
          (case LRU_insert key val b' of
             None \<Rightarrow> None
           | Some b'' \<Rightarrow> Some (StatusInserted, b''))
      | (Some v, b') \<Rightarrow> Some (Value v, b'))"

definition Bucket_evict :: "'k \<Rightarrow> ('k, 'v) Bucket \<Rightarrow> ('k, 'v) Bucket" where
  "Bucket_evict key b = LRU_evict key b"

definition Bucket_clear :: "('k, 'v) Bucket \<Rightarrow> ('k, 'v) Bucket" where
  "Bucket_clear b = LRU_clear b"

section \<open>Class ConcurrentLRUCache\<close>

text \<open>
  The members \<open>buckets_\<close>, \<open>bucketsNum_\<close> and \<open>bucketsExp_\<close> (lines 136-138) are the
  fields \<open>buckets\<close>, \<open>bucketsNum\<close> and \<open>bucketsExp\<close>.
\<close>

record ('k, 'v) ConcurrentLRUCache =
  buckets :: "('k, 'v) Bucket list"
  bucketsNum :: uint32_t
  bucketsExp :: uint32_t

text \<open>
  The two ways in which a call of the constructor does not give an instance. A failed
  \<open>CHECK\<close> aborts the process: \<open>CheckFailed\<close>. A call that shifts the \<open>int\<close> 1 by 32 or
  more has no behaviour defined by C++ at all: \<open>UndefinedShift\<close> says that nothing is
  known about such a call, neither that it aborts nor that it returns.
\<close>

datatype fault = CheckFailed | UndefinedShift

text \<open>
  The constructor's loop (lines 33-36), from the counter \<open>i\<close>, the vector and \<open>left\<close>
  to the vector and \<open>left\<close> after the loop. The bound \<open>bucketsNum_ - 1\<close> is computed in
  \<open>uint32_t\<close>, the subtraction from \<open>left\<close> in \<open>size_t\<close>.
\<close>

function ctor_loop ::
  "uint32_t \<Rightarrow> uint32_t \<Rightarrow> size_t \<Rightarrow> ('k, 'v) Bucket list \<Rightarrow> size_t
     \<Rightarrow> ('k, 'v) Bucket list \<times> size_t" where
  "ctor_loop i num capPerBucket bs left =
     (if i < num - 1
      then ctor_loop (i + 1) num capPerBucket (bs @ [Bucket_new capPerBucket])
             (left - capPerBucket)
      else (bs, left))"
  by pat_completeness auto
termination
proof (relation "measure (\<lambda>(i, num, capPerBucket, bs, left). unat (num - 1) - unat i)")
  show "wf (measure (\<lambda>(i, num, capPerBucket, bs, left). unat (num - 1) - unat i))"
    by simp
next
  fix i num :: uint32_t and capPerBucket left :: size_t and bs :: "('k, 'v) Bucket list"
  assume lt: "i < num - 1"
  then have "unat (i + 1) = Suc (unat i)"
    by unat_arith
  with lt show "((i + 1, num, capPerBucket, bs @ [Bucket_new capPerBucket], left - capPerBucket),
                 (i, num, capPerBucket, bs, left))
                \<in> measure (\<lambda>(i, num, capPerBucket, bs, left). unat (num - 1) - unat i)"
    by (simp add: word_less_nat_alt)
qed

declare ctor_loop.simps [simp del]

text \<open>
  The constructor, lines 27-39. \<open>1 << bucketsExp\<close> is a shift of the \<open>int\<close> 1 that
  initialises the \<open>uint32_t\<close> member \<open>bucketsNum_\<close>. An \<open>int\<close> has 32 bits, so the shift
  is undefined from \<open>bucketsExp = 32\<close> on, and the constructor has no defined result
  there (compilers that take the shift count modulo 32 build an instance with
  \<open>1 << (bucketsExp mod 32)\<close> buckets, others may do anything else). Below 32 the shift
  is the 32-bit word \<open>2 ^ bucketsExp\<close>. The comparison with \<open>capacity\<close> and the shift
  \<open>capacity >> bucketsExp\<close> are in \<open>size_t\<close>.
\<close>

definition ConcurrentLRUCache_new ::
  "size_t \<Rightarrow> uint32_t \<Rightarrow> fault + ('k, 'v) ConcurrentLRUCache" where
  "ConcurrentLRUCache_new capacity bExp =
     (if 32 \<le> unat bExp then Inl UndefinedShift
      else
        (let num = (push_bit (unat bExp) 1 :: uint32_t) in
         if \<not> ((ucast num :: size_t) < capacity \<and> 0 < num) then Inl CheckFailed
         else
           (let capPerBucket = drop_bit (unat bExp) capacity in
            case ctor_loop 0 num capPerBucket [] capacity of
              (bs, left) \<Rightarrow>
                if \<not> 0 < left then Inl CheckFailed
                else Inr \<lparr>buckets = bs @ [Bucket_new left],
                          bucketsNum = num, bucketsExp = bExp\<rparr>)))"

text \<open>
  \<open>bucketIndex\<close>, lines 129-132, with \<open>std::hash<K>()\<close> as the parameter \<open>hash\<close>. The
  mask \<open>(1 << bucketsExp_) - 1\<close> is an \<open>int\<close>, in two's complement arithmetic of 32 bits
  (the subtraction wraps for \<open>bucketsExp_ = 31\<close>, to the mask of 31 ones); every cache
  that the constructor returns has \<open>bucketsExp_ < 32\<close>. The two
  branches of the conditional have the types \<open>int\<close> and \<open>size_t\<close>, so both are converted
  to \<open>size_t\<close> (the \<open>int\<close> by sign extension), and the result is cut to \<open>uint32_t\<close> on
  return.
\<close>

definition bucketIndex ::
  "('k \<Rightarrow> size_t) \<Rightarrow> ('k, 'v) ConcurrentLRUCache \<Rightarrow> 'k \<Rightarrow> int32_t \<Rightarrow> uint32_t" where
  "bucketIndex hash c key hint =
     (let mask = (push_bit (unat (bucketsExp c)) 1 - 1 :: int32_t) in
      if 0 \<le> sint hint
      then ucast (scast (hint AND mask) :: size_t)
      else ucast (hash key AND (scast mask :: size_t)))"

text \<open>
  The public operations, lines 41-69. Each one selects \<open>buckets_[bucketIndex(key, hint)]\<close>;
  \<open>operator[]\<close> of a vector is undefined beyond its size, which is \<open>None\<close> here.
\<close>

definition cache_contains ::
  "('k \<Rightarrow> size_t) \<Rightarrow> 'k \<Rightarrow> int32_t \<Rightarrow> ('k, 'v) ConcurrentLRUCache \<Rightarrow> bool option" where
  "cache_contains hash key hint c =
     (let i = unat (bucketIndex hash c key hint) in
      if i < length (buckets c) then Some (Bucket_contains key (buckets c ! i)) else None)"

definition cache_insert ::
  "('k \<Rightarrow> size_t) \<Rightarrow> 'k \<Rightarrow> 'v \<Rightarrow> int32_t \<Rightarrow> ('k, 'v) ConcurrentLRUCache
     \<Rightarrow> ('k, 'v) ConcurrentLRUCache option" where
  "cache_insert hash key val hint c =
     (let i = unat (bucketIndex hash c key hint) in
      if i < length (buckets c)
      then (case Bucket_insert key val (buckets c ! i) of
              None \<Rightarrow> None
            | Some b \<Rightarrow> Some (c\<lparr>buckets := (buckets c)[i := b]\<rparr>))
      else None)"

definition cache_get ::
  "('k \<Rightarrow> size_t) \<Rightarrow> 'k \<Rightarrow> int32_t \<Rightarrow> ('k, 'v) ConcurrentLRUCache
     \<Rightarrow> ('v StatusOr \<times> ('k, 'v) ConcurrentLRUCache) option" where
  "cache_get hash key hint c =
     (let i = unat (bucketIndex hash c key hint) in
      if i < length (buckets c)
      then (case Bucket_get key (buckets c ! i) of
              (r, b) \<Rightarrow> Some (r, c\<lparr>buckets := (buckets c)[i := b]\<rparr>))
      else None)"

definition cache_putIfAbsent ::
  "('k \<Rightarrow> size_t) \<Rightarrow> 'k \<Rightarrow> 'v \<Rightarrow> int32_t \<Rightarrow> ('k, 'v) ConcurrentLRUCache
     \<Rightarrow> ('v StatusOr \<times> ('k, 'v) ConcurrentLRUCache) option" where
  "cache_putIfAbsent hash key val hint c =
     (let i = unat (bucketIndex hash c key hint) in
      if i < length (buckets c)
      then (case Bucket_putIfAbsent key val (buckets c ! i) of
              None \<Rightarrow> None
            | Some (r, b) \<Rightarrow> Some (r, c\<lparr>buckets := (buckets c)[i := b]\<rparr>))
      else None)"

definition cache_evict ::
  "('k \<Rightarrow> size_t) \<Rightarrow> 'k \<Rightarrow> int32_t \<Rightarrow> ('k, 'v) ConcurrentLRUCache
     \<Rightarrow> ('k, 'v) ConcurrentLRUCache option" where
  "cache_evict hash key hint c =
     (let i = unat (bucketIndex hash c key hint) in
      if i < length (buckets c)
      then Some (c\<lparr>buckets := (buckets c)[i := Bucket_evict key (buckets c ! i)]\<rparr>)
      else None)"

text \<open>
  \<open>clear\<close>, lines 65-69. The counter is an \<open>int\<close> that the comparison with
  \<open>bucketsNum_\<close> converts to \<open>uint32_t\<close>; it is a word of 32 bits here, read without sign
  in the comparison and as the index.
\<close>

function clear_loop ::
  "uint32_t \<Rightarrow> ('k, 'v) ConcurrentLRUCache \<Rightarrow> ('k, 'v) ConcurrentLRUCache option" where
  "clear_loop i c =
     (if i < bucketsNum c
      then (if unat i < length (buckets c)
            then clear_loop (i + 1)
                   (c\<lparr>buckets := (buckets c)[unat i := Bucket_clear (buckets c ! unat i)]\<rparr>)
            else None)
      else Some c)"
  by pat_completeness auto
termination
proof (relation "measure (\<lambda>(i, c). unat (bucketsNum c) - unat i)")
  show "wf (measure (\<lambda>(i, c). unat (bucketsNum c) - unat i))"
    by simp
next
  fix i :: uint32_t and c :: "('k, 'v) ConcurrentLRUCache"
  assume lt: "i < bucketsNum c"
  then have "unat (i + 1) = Suc (unat i)"
    by unat_arith
  with lt show "((i + 1, c\<lparr>buckets := (buckets c)[unat i := Bucket_clear (buckets c ! unat i)]\<rparr>),
                 (i, c))
                \<in> measure (\<lambda>(i, c). unat (bucketsNum c) - unat i)"
    by (simp add: word_less_nat_alt)
qed

declare clear_loop.simps [simp del]

definition cache_clear ::
  "('k, 'v) ConcurrentLRUCache \<Rightarrow> ('k, 'v) ConcurrentLRUCache option" where
  "cache_clear c = clear_loop 0 c"

section \<open>Sequences of operations\<close>

text \<open>
  A call of the public interface, and a sequence of calls run from left to right. A
  sequence has a result only if every call in it has one.
\<close>

datatype ('k, 'v) cache_op =
    Contains 'k int32_t
  | Insert 'k 'v int32_t
  | Get 'k int32_t
  | PutIfAbsent 'k 'v int32_t
  | Evict 'k int32_t
  | Clear

fun apply_op ::
  "('k \<Rightarrow> size_t) \<Rightarrow> ('k, 'v) cache_op \<Rightarrow> ('k, 'v) ConcurrentLRUCache
     \<Rightarrow> ('k, 'v) ConcurrentLRUCache option" where
  "apply_op hash (Contains key hint) c = map_option (\<lambda>_. c) (cache_contains hash key hint c)"
| "apply_op hash (Insert key val hint) c = cache_insert hash key val hint c"
| "apply_op hash (Get key hint) c = map_option snd (cache_get hash key hint c)"
| "apply_op hash (PutIfAbsent key val hint) c =
     map_option snd (cache_putIfAbsent hash key val hint c)"
| "apply_op hash (Evict key hint) c = cache_evict hash key hint c"
| "apply_op hash Clear c = cache_clear c"

fun apply_ops ::
  "('k \<Rightarrow> size_t) \<Rightarrow> ('k, 'v) cache_op list \<Rightarrow> ('k, 'v) ConcurrentLRUCache
     \<Rightarrow> ('k, 'v) ConcurrentLRUCache option" where
  "apply_ops hash [] c = Some c"
| "apply_ops hash (x # xs) c =
     (case apply_op hash x c of None \<Rightarrow> None | Some c' \<Rightarrow> apply_ops hash xs c')"

section \<open>Invariants\<close>

text \<open>
  The two structures of an \<open>LRU\<close> hold the same keys, and the list holds each key once.
\<close>

definition lru_inv :: "('k, 'v) LRU \<Rightarrow> bool" where
  "lru_inv s = (distinct (LRU_list s) \<and> set (LRU_list s) = Mapping.keys (LRU_map s))"

text \<open>An \<open>LRU\<close> of a positive capacity that holds no more entries than its capacity.\<close>

definition lru_ok :: "('k, 'v) LRU \<Rightarrow> bool" where
  "lru_ok s = (lru_inv s \<and> 0 < unat (LRU_capacity s) \<and> LRU_size s \<le> unat (LRU_capacity s))"

text \<open>
  A cache as the constructor leaves it: \<open>bucketsNum_\<close> is \<open>1 << bucketsExp_\<close> and not 0,
  the vector has \<open>bucketsNum_\<close> buckets, and every bucket is in order.
\<close>

definition cache_inv :: "('k, 'v) ConcurrentLRUCache \<Rightarrow> bool" where
  "cache_inv c =
     (bucketsNum c = push_bit (unat (bucketsExp c)) 1 \<and> 0 < bucketsNum c \<and>
      length (buckets c) = unat (bucketsNum c) \<and> list_all lru_ok (buckets c))"

text \<open>The capacities of the buckets, in the order of the vector.\<close>

definition capacities :: "('k, 'v) ConcurrentLRUCache \<Rightarrow> nat list" where
  "capacities c = map (\<lambda>b. unat (LRU_capacity b)) (buckets c)"

definition sizes :: "('k, 'v) ConcurrentLRUCache \<Rightarrow> nat list" where
  "sizes c = map LRU_size (buckets c)"

section \<open>An example configuration\<close>

text \<open>The cache that the constructor builds from capacity 11 and \<open>bucketsExp = 2\<close>.\<close>

definition c_11_2 :: "(nat, nat) ConcurrentLRUCache" where
  "c_11_2 = \<lparr>buckets = [Bucket_new 2, Bucket_new 2, Bucket_new 2, Bucket_new 5],
              bucketsNum = 4, bucketsExp = 2\<rparr>"

text \<open>
  The same cache after \<open>insert(7, 10, 0)\<close> and \<open>insert(8, 20, 0)\<close>: both keys are in
  shard 0, the later one in front.
\<close>

definition c_two :: "(nat, nat) ConcurrentLRUCache" where
  "c_two = \<lparr>buckets =
              [\<lparr>LRU_map = Mapping.update 8 20 (Mapping.update 7 10 Mapping.empty),
                LRU_list = [8, 7], LRU_capacity = 2\<rparr>,
               Bucket_new 2, Bucket_new 2, Bucket_new 5],
            bucketsNum = 4, bucketsExp = 2\<rparr>"

section \<open>The invariant of an LRU\<close>

lemma lookup_None_keys: "Mapping.lookup m k = None \<longleftrightarrow> k \<notin> Mapping.keys m"
  by (simp add: keys_dom_lookup domIff)

lemma LRU_contains_keys: "LRU_contains key s \<longleftrightarrow> key \<in> Mapping.keys (LRU_map s)"
  by (simp add: LRU_contains_def lookup_None_keys)

lemma lru_inv_size: "lru_inv s \<Longrightarrow> LRU_size s = length (LRU_list s)"
proof -
  assume inv: "lru_inv s"
  then have "distinct (LRU_list s)"
    by (simp add: lru_inv_def)
  then have "card (set (LRU_list s)) = length (LRU_list s)"
    by (rule distinct_card)
  moreover from inv have "Mapping.keys (LRU_map s) = set (LRU_list s)"
    by (simp add: lru_inv_def)
  ultimately show ?thesis
    by (simp add: LRU_size_def Mapping.size_def)
qed

lemma lru_inv_contains: "lru_inv s \<Longrightarrow> LRU_contains key s \<longleftrightarrow> key \<in> set (LRU_list s)"
  by (simp add: LRU_contains_keys lru_inv_def)

lemma lru_inv_new: "lru_inv (LRU_new c)"
  by (simp add: lru_inv_def LRU_new_def)

lemma LRU_insert_present:
  "LRU_contains key s \<Longrightarrow> LRU_insert key val s = Some s"
  by (auto simp: LRU_insert_def LRU_contains_def)

lemma LRU_insert_room:
  assumes "lru_inv s" "key \<notin> set (LRU_list s)" "length (LRU_list s) < unat (LRU_capacity s)"
  shows "LRU_insert key val s =
           Some (s\<lparr>LRU_list := key # LRU_list s, LRU_map := Mapping.update key val (LRU_map s)\<rparr>)"
proof -
  have "Mapping.lookup (LRU_map s) key = None"
    using assms(1,2) by (simp add: lookup_None_keys lru_inv_def)
  moreover have "\<not> unat (LRU_capacity s) \<le> LRU_size s"
    using assms(1,3) by (simp add: lru_inv_size)
  ultimately show ?thesis
    by (simp add: LRU_insert_def)
qed

lemma LRU_insert_full:
  assumes "lru_inv s" "key \<notin> set (LRU_list s)" "unat (LRU_capacity s) \<le> length (LRU_list s)"
    "LRU_list s \<noteq> []"
  shows "LRU_insert key val s =
           Some (s\<lparr>LRU_list := key # butlast (LRU_list s),
                   LRU_map := Mapping.update key val
                     (Mapping.delete (last (LRU_list s)) (LRU_map s))\<rparr>)"
proof -
  have "Mapping.lookup (LRU_map s) key = None"
    using assms(1,2) by (simp add: lookup_None_keys lru_inv_def)
  moreover have "unat (LRU_capacity s) \<le> LRU_size s"
    using assms(1,3) by (simp add: lru_inv_size)
  ultimately show ?thesis
    using assms(4) by (simp add: LRU_insert_def LRU_evict_oldest_def split: list.splits)
qed

lemma lru_inv_evict_oldest:
  assumes "lru_inv s" "LRU_evict_oldest s = Some s'"
  shows "lru_inv s'"
proof -
  from assms(2) have ne: "LRU_list s \<noteq> []"
    and s': "s' = s\<lparr>LRU_map := Mapping.delete (last (LRU_list s)) (LRU_map s),
                  LRU_list := butlast (LRU_list s)\<rparr>"
    by (auto simp: LRU_evict_oldest_def split: list.splits)
  from ne have app: "LRU_list s = butlast (LRU_list s) @ [last (LRU_list s)]"
    by simp
  from assms(1) have d: "distinct (butlast (LRU_list s) @ [last (LRU_list s)])"
    and k: "Mapping.keys (LRU_map s) = set (butlast (LRU_list s) @ [last (LRU_list s)])"
    unfolding lru_inv_def using app by simp_all
  show ?thesis
    using d k by (auto simp: lru_inv_def s')
qed

lemma lru_inv_insert:
  assumes "lru_inv s" "LRU_insert key val s = Some s'"
  shows "lru_inv s'"
proof (cases "Mapping.lookup (LRU_map s) key")
  case (Some v)
  with assms show ?thesis by (simp add: LRU_insert_def)
next
  case None
  then have notin: "key \<notin> Mapping.keys (LRU_map s)"
    by (simp add: lookup_None_keys)
  from assms(2) None obtain t where
    t: "(if unat (LRU_capacity s) \<le> LRU_size s then LRU_evict_oldest s else Some s) = Some t"
    and s': "s' = t\<lparr>LRU_list := key # LRU_list t, LRU_map := Mapping.update key val (LRU_map t)\<rparr>"
    by (auto simp: LRU_insert_def split: option.splits)
  have "lru_inv t"
    using t assms(1) lru_inv_evict_oldest by (auto split: if_splits)
  moreover have "Mapping.keys (LRU_map t) \<subseteq> Mapping.keys (LRU_map s)"
    using t by (auto simp: LRU_evict_oldest_def split: if_splits list.splits)
  ultimately show ?thesis
    using notin by (auto simp: lru_inv_def s')
qed

lemma set_move_front:
  "distinct xs \<Longrightarrow> x \<in> set xs \<Longrightarrow> distinct (x # remove1 x xs) \<and> set (x # remove1 x xs) = set xs"
  by (auto simp: set_remove1_eq)

lemma lru_inv_get: "lru_inv s \<Longrightarrow> lru_inv (snd (LRU_get key s))"
proof (cases "Mapping.lookup (LRU_map s) key")
  case None
  assume "lru_inv s"
  with None show ?thesis by (simp add: LRU_get_def)
next
  case (Some v)
  assume inv: "lru_inv s"
  from Some have "key \<in> Mapping.keys (LRU_map s)"
    using lookup_None_keys [of "LRU_map s" key] by simp
  with inv have mem: "key \<in> set (LRU_list s)" and d: "distinct (LRU_list s)"
    and k: "Mapping.keys (LRU_map s) = set (LRU_list s)"
    by (simp_all add: lru_inv_def)
  from set_move_front [OF d mem]
  have "lru_inv (s\<lparr>LRU_list := key # remove1 key (LRU_list s)\<rparr>)"
    unfolding lru_inv_def using k by simp
  with inv Some show ?thesis
    by (simp add: LRU_get_def)
qed

lemma lru_inv_evict: "lru_inv s \<Longrightarrow> lru_inv (LRU_evict key s)"
proof (cases "Mapping.lookup (LRU_map s) key")
  case None
  assume "lru_inv s"
  with None show ?thesis by (simp add: LRU_evict_def)
next
  case (Some v)
  assume inv: "lru_inv s"
  then have d: "distinct (LRU_list s)"
    and k: "Mapping.keys (LRU_map s) = set (LRU_list s)"
    by (simp_all add: lru_inv_def)
  from d have "set (remove1 key (LRU_list s)) = set (LRU_list s) - {key}"
    by (rule set_remove1_eq)
  with d k Some show ?thesis
    by (simp add: LRU_evict_def lru_inv_def)
qed

lemma lru_inv_clear: "lru_inv (LRU_clear s)"
  by (simp add: lru_inv_def LRU_clear_def)

lemma LRU_insert_room_ex:
  assumes "lru_inv s" "key \<notin> set (LRU_list s)" "length (LRU_list s) < unat (LRU_capacity s)"
  shows "\<exists>s'. LRU_insert key val s = Some s' \<and> lru_inv s' \<and>
           LRU_list s' = key # LRU_list s \<and> LRU_capacity s' = LRU_capacity s"
proof -
  let ?s' = "s\<lparr>LRU_list := key # LRU_list s, LRU_map := Mapping.update key val (LRU_map s)\<rparr>"
  have eq: "LRU_insert key val s = Some ?s'"
    using assms by (rule LRU_insert_room)
  moreover from assms(1) eq have "lru_inv ?s'"
    by (rule lru_inv_insert)
  ultimately show ?thesis
    by simp
qed

lemma LRU_insert_full_ex:
  assumes "lru_inv s" "key \<notin> set (LRU_list s)" "unat (LRU_capacity s) \<le> length (LRU_list s)"
    "LRU_list s \<noteq> []"
  shows "\<exists>s'. LRU_insert key val s = Some s' \<and> lru_inv s' \<and>
           LRU_list s' = key # butlast (LRU_list s) \<and> LRU_capacity s' = LRU_capacity s"
proof -
  let ?s' = "s\<lparr>LRU_list := key # butlast (LRU_list s),
                LRU_map := Mapping.update key val
                  (Mapping.delete (last (LRU_list s)) (LRU_map s))\<rparr>"
  have eq: "LRU_insert key val s = Some ?s'"
    using assms by (rule LRU_insert_full)
  moreover from assms(1) eq have "lru_inv ?s'"
    by (rule lru_inv_insert)
  ultimately show ?thesis
    by simp
qed

lemma LRU_get_list:
  "LRU_contains key s \<Longrightarrow> LRU_list (snd (LRU_get key s)) = key # remove1 key (LRU_list s)"
  by (cases "LRU_list s") (auto simp: LRU_get_def LRU_contains_def)

lemma LRU_get_capacity: "LRU_capacity (snd (LRU_get key s)) = LRU_capacity s"
  by (simp add: LRU_get_def split: option.splits)

lemma Bucket_get_snd: "snd (Bucket_get key b) = snd (LRU_get key b)"
  by (cases "LRU_get key b"; cases "fst (LRU_get key b)") (simp_all add: Bucket_get_def)

lemma Bucket_get_fst:
  "fst (Bucket_get key b) =
     (case fst (LRU_get key b) of None \<Rightarrow> StatusError | Some v \<Rightarrow> Value v)"
  by (cases "LRU_get key b"; cases "fst (LRU_get key b)") (simp_all add: Bucket_get_def)

section \<open>Recency order in one shard\<close>

text \<open>
  Claim C1. In one shard of capacity 4, inserting the distinct keys A, B, C, D in this
  order, then reading A, then inserting a new key E evicts exactly B: every call has a
  result, the order after the read is A, D, C, B, and afterwards the shard contains A, C,
  D and E and does not contain B.
\<close>

theorem C1_recency_eviction:
  assumes dist: "distinct [A, B, C, D, E]"
  shows "\<exists>s1 s2 s3 s4 s5.
     Bucket_insert A a (Bucket_new 4) = Some s1 \<and>
     Bucket_insert B b s1 = Some s2 \<and>
     Bucket_insert C c s2 = Some s3 \<and>
     Bucket_insert D d s3 = Some s4 \<and>
     Bucket_insert E e (snd (Bucket_get A s4)) = Some s5 \<and>
     LRU_list (snd (Bucket_get A s4)) = [A, D, C, B] \<and>
     Bucket_contains A s5 \<and> Bucket_contains C s5 \<and> Bucket_contains D s5 \<and>
     Bucket_contains E s5 \<and> \<not> Bucket_contains B s5"
proof -
  let ?s0 = "LRU_new 4 :: ('a, 'b) LRU"
  have i0: "lru_inv ?s0" and l0: "LRU_list ?s0 = []" and c0: "LRU_capacity ?s0 = 4"
    by (simp_all add: lru_inv_new) (simp_all add: LRU_new_def)
  obtain s1 where s1: "LRU_insert A a ?s0 = Some s1" and i1: "lru_inv s1"
    and l1: "LRU_list s1 = [A]" and c1: "LRU_capacity s1 = 4"
    using LRU_insert_room_ex [OF i0, of A a] l0 c0 by auto
  obtain s2 where s2: "LRU_insert B b s1 = Some s2" and i2: "lru_inv s2"
    and l2: "LRU_list s2 = [B, A]" and c2: "LRU_capacity s2 = 4"
    using LRU_insert_room_ex [OF i1, of B b] l1 c1 dist by auto
  obtain s3 where s3: "LRU_insert C c s2 = Some s3" and i3: "lru_inv s3"
    and l3: "LRU_list s3 = [C, B, A]" and c3: "LRU_capacity s3 = 4"
    using LRU_insert_room_ex [OF i2, of C c] l2 c2 dist by auto
  obtain s4 where s4: "LRU_insert D d s3 = Some s4" and i4: "lru_inv s4"
    and l4: "LRU_list s4 = [D, C, B, A]" and c4: "LRU_capacity s4 = 4"
    using LRU_insert_room_ex [OF i3, of D d] l3 c3 dist by auto
  let ?g = "snd (LRU_get A s4)"
  have "LRU_contains A s4"
    using i4 l4 by (simp add: lru_inv_contains)
  then have "LRU_list ?g = A # remove1 A (LRU_list s4)"
    by (rule LRU_get_list)
  with l4 dist have lg: "LRU_list ?g = [A, D, C, B]"
    by auto
  have ig: "lru_inv ?g"
    using i4 by (rule lru_inv_get)
  have cg: "LRU_capacity ?g = 4"
    using c4 by (simp add: LRU_get_capacity)
  obtain s5 where s5: "LRU_insert E e ?g = Some s5" and i5: "lru_inv s5"
    and l5: "LRU_list s5 = [E, A, D, C]"
    using LRU_insert_full_ex [OF ig, of E e] lg cg dist by auto
  have "LRU_contains A s5" "LRU_contains C s5" "LRU_contains D s5" "LRU_contains E s5"
    "\<not> LRU_contains B s5"
    using i5 l5 dist by (auto simp: lru_inv_contains)
  with s1 s2 s3 s4 s5 lg
  have "LRU_insert A a ?s0 = Some s1 \<and> LRU_insert B b s1 = Some s2 \<and>
    LRU_insert C c s2 = Some s3 \<and> LRU_insert D d s3 = Some s4 \<and>
    LRU_insert E e (snd (LRU_get A s4)) = Some s5 \<and>
    LRU_list (snd (LRU_get A s4)) = [A, D, C, B] \<and>
    LRU_contains A s5 \<and> LRU_contains C s5 \<and> LRU_contains D s5 \<and>
    LRU_contains E s5 \<and> \<not> LRU_contains B s5"
    by simp
  then show ?thesis
    unfolding Bucket_insert_def Bucket_contains_def Bucket_new_def Bucket_get_snd
    by (intro exI)
qed

theorem C1_recency_eviction_witness:
  "\<exists>s1 s2 s3 s4 s5.
     Bucket_insert (1::nat) (10::nat) (Bucket_new 4) = Some s1 \<and>
     Bucket_insert 2 20 s1 = Some s2 \<and>
     Bucket_insert 3 30 s2 = Some s3 \<and>
     Bucket_insert 4 40 s3 = Some s4 \<and>
     Bucket_insert 5 50 (snd (Bucket_get 1 s4)) = Some s5 \<and>
     LRU_list (snd (Bucket_get 1 s4)) = [1, 4, 3, 2] \<and>
     Bucket_contains 1 s5 \<and> Bucket_contains 3 s5 \<and> Bucket_contains 4 s5 \<and>
     Bucket_contains 5 s5 \<and> \<not> Bucket_contains 2 s5"
proof -
  have d: "distinct [1::nat, 2, 3, 4, 5]"
    by simp
  show ?thesis
    by (rule C1_recency_eviction [OF d])
qed

section \<open>Facts about the machine integers\<close>

lemma exp_lt32:
  fixes e :: nat
  assumes "0 < (push_bit e 1 :: 32 word)"
  shows "e < 32"
proof (rule ccontr)
  assume "\<not> e < 32"
  then have "(2 ^ e :: 32 word) = 0"
    by simp
  with assms show False by (simp add: push_bit_eq_mult)
qed

lemma mask32: "(push_bit e 1 - 1 :: 32 word) = mask e"
  by (simp add: mask_eq_exp_minus_1 push_bit_eq_mult)

lemma idx_hint:
  fixes hint :: "32 word"
  assumes "0 \<le> sint hint"
  shows "(ucast (scast (hint AND mask e) :: 64 word) :: 32 word) = hint AND mask e"
proof -
  have "\<not> bit hint 31"
    using assms bit_last_iff [of hint] by simp
  then show ?thesis
    by (intro bit_word_eqI) (auto simp: bit_simps)
qed

lemma scast_mask:
  assumes "e < 32"
  shows "(scast (mask e :: 32 word) :: 64 word) = mask e"
  using assms by (intro bit_word_eqI) (auto simp: bit_simps)

lemma idx_hash:
  fixes h :: "64 word"
  assumes "e < 32"
  shows "(ucast (h AND mask e) :: 32 word) = ucast h AND mask e"
  by (intro bit_word_eqI) (auto simp: bit_simps)

lemma and_mask_lt: "e < 32 \<Longrightarrow> (w :: 32 word) AND mask e < push_bit e 1"
  by (simp add: and_mask_less' push_bit_eq_mult)

lemma unat_num:
  assumes "e < 32"
  shows "unat (push_bit e 1 :: uint32_t) = 2 ^ e"
proof -
  have "(push_bit e 1 :: uint32_t) = of_nat (2 ^ e)"
    by (simp add: push_bit_eq_mult)
  moreover have "(2::nat) ^ e < 2 ^ 32"
    using assms by (rule power_strict_increasing) simp
  ultimately show ?thesis
    by (simp only: unat_of_nat) simp
qed

lemma ucast_num_less:
  assumes "e < 32"
  shows "(ucast (push_bit e 1 :: uint32_t) :: size_t) < cap \<longleftrightarrow> 2 ^ e < unat cap"
proof -
  have "unat (ucast (push_bit e 1 :: uint32_t) :: size_t) = 2 ^ e"
  proof -
    have "unat (push_bit e 1 :: uint32_t) < 2 ^ 32"
      using unsigned_less [of "push_bit e 1 :: uint32_t", where 'a = nat] by simp
    then have "unat (push_bit e 1 :: uint32_t) < 2 ^ 64"
      by simp
    then have "take_bit 64 (unat (push_bit e 1 :: uint32_t)) = unat (push_bit e 1 :: uint32_t)"
      by (simp only: take_bit_nat_eq_self_iff)
    then show ?thesis
      using unat_num [OF assms] by (simp add: unsigned_ucast_eq)
  qed
  then show ?thesis
    by (simp add: word_less_nat_alt)
qed

lemma left_unat:
  fixes cap :: size_t
  assumes "0 < n"
  shows "unat (cap - of_nat (n - 1) * of_nat (unat cap div n)) = unat cap div n + unat cap mod n"
proof -
  let ?C = "unat cap"
  have le: "(n - 1) * (?C div n) \<le> ?C"
  proof -
    have "(n - 1) * (?C div n) \<le> n * (?C div n)"
      by (simp add: mult_le_mono1)
    also have "\<dots> \<le> ?C"
      by simp
    finally show ?thesis .
  qed
  have m: "(of_nat (n - 1) * of_nat (?C div n) :: size_t) = of_nat ((n - 1) * (?C div n))"
    by simp
  have "unat (of_nat ((n - 1) * (?C div n)) :: size_t) = (n - 1) * (?C div n)"
    using le by (rule le_unat_uoi)
  then have u: "unat (of_nat (n - 1) * of_nat (?C div n) :: size_t) = (n - 1) * (?C div n)"
    by (simp only: m)
  then have "of_nat (n - 1) * of_nat (?C div n) \<le> cap"
    using le by (simp add: word_le_nat_alt)
  then have "unat (cap - of_nat (n - 1) * of_nat (?C div n)) = ?C - (n - 1) * (?C div n)"
    using u by (simp add: unat_sub)
  also have "\<dots> = ?C div n + ?C mod n"
  proof -
    have "?C = n * (?C div n) + ?C mod n"
      by simp
    moreover have "n * (?C div n) = (n - 1) * (?C div n) + ?C div n"
      using assms by (simp add: algebra_simps mult_eq_if)
    ultimately show ?thesis
      by linarith
  qed
  finally show ?thesis .
qed

lemma drop_bit_of_nat:
  fixes cap :: size_t
  shows "drop_bit e cap = of_nat (unat cap div 2 ^ e)"
proof -
  have "unat (drop_bit e cap) = unat cap div 2 ^ e"
    using unat_drop_bit_eq [of e cap] drop_bit_eq_div [of e "unat cap"] by simp
  then show ?thesis
    using of_nat_unat [of "drop_bit e cap", where 'a = size_t] by simp
qed

section \<open>The constructor\<close>

lemma ctor_loop_eq:
  "unat i \<le> unat (num - 1) \<Longrightarrow>
   ctor_loop i num cpb bs left =
     (bs @ replicate (unat (num - 1) - unat i) (Bucket_new cpb),
      left - of_nat (unat (num - 1) - unat i) * cpb)"
proof (induction i num cpb bs left rule: ctor_loop.induct)
  case (1 i num cpb bs left)
  show ?case
  proof (cases "i < num - 1")
    case True
    then have suc: "unat (i + 1) = Suc (unat i)"
      by unat_arith
    from True have lt: "unat i < unat (num - 1)"
      by (simp add: word_less_nat_alt)
    then have le: "unat (i + 1) \<le> unat (num - 1)"
      using suc by simp
    have d: "unat (num - 1) - unat i = Suc (unat (num - 1) - unat (i + 1))"
      using lt suc by simp
    have "ctor_loop i num cpb bs left =
            ctor_loop (i + 1) num cpb (bs @ [Bucket_new cpb]) (left - cpb)"
      using True by (subst ctor_loop.simps) simp
    also have "\<dots> = ((bs @ [Bucket_new cpb]) @
                       replicate (unat (num - 1) - unat (i + 1)) (Bucket_new cpb),
                     (left - cpb) - of_nat (unat (num - 1) - unat (i + 1)) * cpb)"
      using "1.IH" [OF True le] .
    also have "\<dots> = (bs @ replicate (unat (num - 1) - unat i) (Bucket_new cpb),
                     left - of_nat (unat (num - 1) - unat i) * cpb)"
      unfolding d by (simp add: algebra_simps)
    finally show ?thesis .
  next
    case False
    with "1.prems" have "unat (num - 1) - unat i = 0"
      by (simp add: word_less_nat_alt)
    with False show ?thesis
      by (subst ctor_loop.simps) simp
  qed
qed

lemma num_pos: "e < 32 \<Longrightarrow> 0 < (push_bit e 1 :: uint32_t)"
  using unat_num [of e] by (simp add: word_less_nat_alt)

lemma ctor_undefined:
  assumes "32 \<le> unat bExp"
  shows "ConcurrentLRUCache_new capacity bExp = Inl UndefinedShift"
  using assms by (simp add: ConcurrentLRUCache_new_def)

lemma ctor_failure:
  assumes "unat bExp < 32" "\<not> 2 ^ unat bExp < unat capacity"
  shows "ConcurrentLRUCache_new capacity bExp = Inl CheckFailed"
proof -
  have "\<not> (ucast (push_bit (unat bExp) 1 :: uint32_t) :: size_t) < capacity"
    using ucast_num_less [OF assms(1), of capacity] assms(2) by simp
  moreover have "\<not> 32 \<le> unat bExp"
    using assms(1) by simp
  ultimately show ?thesis
    by (simp add: ConcurrentLRUCache_new_def Let_def)
qed

lemma ctor_success:
  assumes e: "unat bExp < 32" and cap: "2 ^ unat bExp < unat capacity"
  shows "ConcurrentLRUCache_new capacity bExp =
    Inr \<lparr>buckets =
           replicate (2 ^ unat bExp - 1) (Bucket_new (of_nat (unat capacity div 2 ^ unat bExp)))
           @ [Bucket_new (of_nat (unat capacity div 2 ^ unat bExp
                                  + unat capacity mod 2 ^ unat bExp))],
         bucketsNum = push_bit (unat bExp) 1, bucketsExp = bExp\<rparr>"
proof -
  let ?e = "unat bExp" and ?C = "unat capacity"
  let ?n = "(2::nat) ^ ?e"
  let ?num = "push_bit ?e 1 :: uint32_t"
  let ?cpb = "of_nat (?C div ?n) :: size_t"
  let ?left = "capacity - of_nat (?n - 1) * ?cpb"
  have pos: "0 < ?num"
    using e by (rule num_pos)
  have lt: "(ucast ?num :: size_t) < capacity"
    using ucast_num_less [OF e, of capacity] cap by simp
  have nz: "?num \<noteq> 0"
    using pos by (simp only: word_gt_0) 
  have un: "unat (?num - 1) = ?n - 1"
    using unat_minus_one [OF nz] unat_num [OF e] by (simp only:)
  have cpb: "drop_bit ?e capacity = ?cpb"
    by (rule drop_bit_of_nat)
  have loop: "ctor_loop 0 ?num ?cpb [] capacity = (replicate (?n - 1) (Bucket_new ?cpb), ?left)"
  proof -
    have "unat (0 :: uint32_t) \<le> unat (?num - 1)"
      by simp
    from ctor_loop_eq [OF this, of ?cpb "[]" capacity] show ?thesis
      by (simp only: un unat_0 diff_zero append_Nil)
  qed
  have ul: "unat ?left = ?C div ?n + ?C mod ?n"
    by (rule left_unat) simp
  have "1 \<le> ?C div ?n"
    using cap by (simp add: Suc_le_eq div_greater_zero_iff)
  then have "0 < unat ?left"
    using ul by simp
  then have lpos: "0 < ?left"
    by (simp add: word_less_nat_alt)
  have "?left = of_nat (unat ?left)"
    using of_nat_unat [of ?left, where 'a = size_t] by simp
  then have leq: "?left = of_nat (?C div ?n + ?C mod ?n)"
    by (simp only: ul)
  have "\<not> 32 \<le> unat bExp"
    using e by simp
  then show ?thesis
    unfolding ConcurrentLRUCache_new_def Let_def cpb loop
    using pos lt lpos leq by simp
qed

lemma ctor_cases:
  assumes "ConcurrentLRUCache_new capacity bExp = Inr c"
  shows "unat bExp < 32 \<and> 2 ^ unat bExp < unat capacity"
proof (rule ccontr)
  assume n: "\<not> (unat bExp < 32 \<and> 2 ^ unat bExp < unat capacity)"
  show False
  proof (cases "unat bExp < 32")
    case True
    with n have "\<not> 2 ^ unat bExp < unat capacity"
      by simp
    with True have "ConcurrentLRUCache_new capacity bExp =
      (Inl CheckFailed :: fault + ('a, 'b) ConcurrentLRUCache)"
      by (rule ctor_failure)
    with assms show False by simp
  next
    case False
    then have "32 \<le> unat bExp"
      by simp
    then have "ConcurrentLRUCache_new capacity bExp =
      (Inl UndefinedShift :: fault + ('a, 'b) ConcurrentLRUCache)"
      by (rule ctor_undefined)
    with assms show False by simp
  qed
qed

lemma LRU_size_new: "LRU_size (LRU_new x) = 0"
  by (simp add: LRU_size_def LRU_new_def)

lemma lru_ok_new: "0 < unat x \<Longrightarrow> lru_ok (LRU_new x)"
  by (simp add: lru_ok_def lru_inv_new LRU_size_new) (simp add: LRU_new_def)

lemma div_plus_mod_le: "(C::nat) div n + C mod n \<le> C"
proof (cases "n = 0")
  case True
  then show ?thesis by simp
next
  case False
  then have "C div n \<le> n * (C div n)"
    by simp
  moreover have "n * (C div n) + C mod n = C"
    by simp
  ultimately show ?thesis
    by linarith
qed

lemma ctor_capacities:
  assumes "ConcurrentLRUCache_new capacity bExp = Inr c"
  shows "capacities c =
    replicate (2 ^ unat bExp - 1) (unat capacity div 2 ^ unat bExp)
    @ [unat capacity div 2 ^ unat bExp + unat capacity mod 2 ^ unat bExp]"
proof -
  let ?n = "(2::nat) ^ unat bExp" and ?C = "unat capacity"
  from ctor_cases [OF assms] have e: "unat bExp < 32" and cap: "?n < ?C"
    by simp_all
  have q: "unat (of_nat (?C div ?n) :: size_t) = ?C div ?n"
    by (rule uno_simps)
  have l: "unat (of_nat (?C div ?n + ?C mod ?n) :: size_t) = ?C div ?n + ?C mod ?n"
    using div_plus_mod_le by (rule le_unat_uoi)
  from assms ctor_success [OF e cap, where ?'a = 'a and ?'b = 'b]
  have c: "c = \<lparr>buckets =
           replicate (?n - 1) (Bucket_new (of_nat (?C div ?n)))
           @ [Bucket_new (of_nat (?C div ?n + ?C mod ?n))],
         bucketsNum = push_bit (unat bExp) 1, bucketsExp = bExp\<rparr>"
    by simp
  show ?thesis
    unfolding c capacities_def
    by (simp add: Bucket_new_def LRU_new_def q l del: of_nat_add of_nat_div)
qed

lemma ctor_fields:
  assumes "ConcurrentLRUCache_new capacity bExp = Inr c"
  shows "bucketsNum c = push_bit (unat bExp) 1" "bucketsExp c = bExp"
    "unat (bucketsNum c) = 2 ^ unat bExp" "length (buckets c) = 2 ^ unat bExp"
    "\<forall>b \<in> set (buckets c). LRU_list b = [] \<and> lru_inv b"
proof -
  let ?n = "(2::nat) ^ unat bExp" and ?C = "unat capacity"
  from ctor_cases [OF assms] have e: "unat bExp < 32" and cap: "?n < ?C"
    by simp_all
  from assms ctor_success [OF e cap, where ?'a = 'a and ?'b = 'b]
  have c: "c = \<lparr>buckets =
           replicate (?n - 1) (Bucket_new (of_nat (?C div ?n)))
           @ [Bucket_new (of_nat (?C div ?n + ?C mod ?n))],
         bucketsNum = push_bit (unat bExp) 1, bucketsExp = bExp\<rparr>"
    by simp
  show "bucketsNum c = push_bit (unat bExp) 1" "bucketsExp c = bExp"
    by (simp_all add: c)
  show "unat (bucketsNum c) = ?n"
    using unat_num [OF e] by (simp add: c)
  show "length (buckets c) = ?n"
    by (simp add: c)
  show "\<forall>b \<in> set (buckets c). LRU_list b = [] \<and> lru_inv b"
    unfolding c by (auto simp: Bucket_new_def lru_inv_new) (simp_all add: LRU_new_def)
qed

lemma cache_inv_capacities:
  "cache_inv c \<longleftrightarrow>
     bucketsNum c = push_bit (unat (bucketsExp c)) 1 \<and> 0 < bucketsNum c \<and>
     length (buckets c) = unat (bucketsNum c) \<and>
     (\<forall>b \<in> set (buckets c). lru_ok b)"
  by (simp add: cache_inv_def list_all_iff del: push_bit_of_1)

lemma ctor_cache_inv:
  assumes "ConcurrentLRUCache_new capacity bExp = Inr c"
  shows "cache_inv c"
proof -
  let ?n = "(2::nat) ^ unat bExp" and ?C = "unat capacity"
  from ctor_cases [OF assms] have e: "unat bExp < 32" and cap: "?n < ?C"
    by simp_all
  note f = ctor_fields [OF assms]
  have pos: "0 < bucketsNum c"
    using num_pos [OF e] f(1) by (simp only:)
  have q: "1 \<le> ?C div ?n"
    using cap by (simp add: Suc_le_eq div_greater_zero_iff)
  have "\<forall>b \<in> set (buckets c). lru_ok b"
  proof
    fix b assume b: "b \<in> set (buckets c)"
    then obtain i where i: "i < length (buckets c)" and bi: "b = buckets c ! i"
      by (auto simp: in_set_conv_nth)
    have "capacities c ! i = unat (LRU_capacity b)"
      using i bi by (simp add: capacities_def)
    moreover have "0 < capacities c ! i"
      using q i f(4) unfolding ctor_capacities [OF assms]
      by (cases "i < ?n - 1") (simp_all add: nth_append)
    ultimately have "0 < unat (LRU_capacity b)"
      by simp
    moreover from f(5) b have "LRU_list b = []" "lru_inv b"
      by simp_all
    ultimately show "lru_ok b"
      by (simp add: lru_ok_def lru_inv_size)
  qed
  with pos f(1,2,3,4) show ?thesis
    unfolding cache_inv_capacities by (simp only:) 
qed

lemma ctor_11_2:
  "ConcurrentLRUCache_new 11 2 =
     Inr \<lparr>buckets = [Bucket_new 2, Bucket_new 2, Bucket_new 2, Bucket_new 5],
          bucketsNum = 4, bucketsExp = 2\<rparr>"
  by (simp add: ConcurrentLRUCache_new_def Let_def ctor_loop.simps drop_bit_eq_div)






section \<open>Routing\<close>

lemma ucast_num:
  assumes "e < 32"
  shows "(ucast (push_bit e 1 :: uint32_t) :: size_t) = push_bit e 1"
  using assms by (intro bit_word_eqI) (auto simp: bit_simps simp del: push_bit_of_1)

lemma mask64: "(push_bit e 1 - 1 :: size_t) = mask e"
  by (simp add: mask_eq_exp_minus_1 push_bit_eq_mult)

lemma cache_invD:
  assumes "cache_inv c"
  shows "bucketsNum c = push_bit (unat (bucketsExp c)) 1" "0 < bucketsNum c"
    "length (buckets c) = unat (bucketsNum c)" "list_all lru_ok (buckets c)"
  using assms unfolding cache_inv_def by blast+

lemma cache_inv_exp: "cache_inv c \<Longrightarrow> unat (bucketsExp c) < 32"
proof -
  assume "cache_inv c"
  then have "bucketsNum c = push_bit (unat (bucketsExp c)) 1" "0 < bucketsNum c"
    by (rule cache_invD)+
  then have "0 < (push_bit (unat (bucketsExp c)) 1 :: uint32_t)"
    by (simp only:)
  then show ?thesis
    by (rule exp_lt32)
qed

lemma bucketIndex_hint:
  assumes "cache_inv c" "0 \<le> sint hint"
  shows "bucketIndex hash c key hint = hint AND (bucketsNum c - 1)"
proof -
  have n: "bucketsNum c = push_bit (unat (bucketsExp c)) 1"
    using assms(1) by (rule cache_invD)
  show ?thesis
    unfolding bucketIndex_def Let_def n mask32
    using assms(2) idx_hint [OF assms(2)] by (simp only: if_True)
qed

lemma bucketIndex_hash:
  assumes "cache_inv c" "sint hint < 0"
  shows "bucketIndex hash c key hint = ucast (hash key AND (ucast (bucketsNum c) - 1))"
proof -
  have n: "bucketsNum c = push_bit (unat (bucketsExp c)) 1"
    using assms(1) by (rule cache_invD)
  have e: "unat (bucketsExp c) < 32"
    using assms(1) by (rule cache_inv_exp)
  have "\<not> 0 \<le> sint hint"
    using assms(2) by simp
  then show ?thesis
    unfolding bucketIndex_def Let_def n mask32 ucast_num [OF e] mask64 scast_mask [OF e]
    by (simp only: if_False)
qed

lemma bucketIndex_mask:
  assumes "cache_inv c"
  shows "\<exists>w. bucketIndex hash c key hint = w AND mask (unat (bucketsExp c))"
proof (cases "0 \<le> sint hint")
  case True
  have n: "bucketsNum c = push_bit (unat (bucketsExp c)) 1"
    using assms(1) by (rule cache_invD)
  from bucketIndex_hint [OF assms True, of hash key] show ?thesis
    unfolding n mask32 by blast
next
  case False
  have n: "bucketsNum c = push_bit (unat (bucketsExp c)) 1"
    using assms(1) by (rule cache_invD)
  have e: "unat (bucketsExp c) < 32"
    using assms(1) by (rule cache_inv_exp)
  from False have "sint hint < 0" by simp
  from bucketIndex_hash [OF assms this, of hash key] show ?thesis
    unfolding n ucast_num [OF e] mask64 idx_hash [OF e] by blast
qed

lemma bucketIndex_less:
  assumes "cache_inv c"
  shows "bucketIndex hash c key hint < bucketsNum c"
proof -
  have n: "bucketsNum c = push_bit (unat (bucketsExp c)) 1"
    using assms(1) by (rule cache_invD)
  have e: "unat (bucketsExp c) < 32"
    using assms(1) by (rule cache_inv_exp)
  from bucketIndex_mask [OF assms, of hash key hint]
  obtain w where "bucketIndex hash c key hint = w AND mask (unat (bucketsExp c))"
    by blast
  then show ?thesis
    using and_mask_lt [OF e, of w] n by (simp only:)
qed

lemma bucketIndex_in_range:
  assumes "cache_inv c"
  shows "unat (bucketIndex hash c key hint) < length (buckets c)"
  using bucketIndex_less [OF assms, of hash key hint] cache_invD(3) [OF assms]
  by (simp add: word_less_nat_alt)

lemma bucketIndex_cong:
  "bucketsExp c' = bucketsExp c \<Longrightarrow> bucketIndex hash c' key hint = bucketIndex hash c key hint"
  by (simp add: bucketIndex_def)

section \<open>Every operation keeps the invariants\<close>

lemma lru_okD:
  assumes "lru_ok s"
  shows "lru_inv s" "0 < unat (LRU_capacity s)" "length (LRU_list s) \<le> unat (LRU_capacity s)"
proof -
  from assms show inv: "lru_inv s" and "0 < unat (LRU_capacity s)"
    unfolding lru_ok_def by blast+
  from assms have "LRU_size s \<le> unat (LRU_capacity s)"
    unfolding lru_ok_def by blast
  then show "length (LRU_list s) \<le> unat (LRU_capacity s)"
    using lru_inv_size [OF inv] by simp
qed

lemma lru_okI:
  assumes "lru_inv s" "0 < unat (LRU_capacity s)" "length (LRU_list s) \<le> unat (LRU_capacity s)"
  shows "lru_ok s"
  using assms lru_inv_size [OF assms(1)] by (simp add: lru_ok_def)

lemma lru_ok_insert:
  assumes "lru_ok s"
  shows "\<exists>s'. LRU_insert key val s = Some s' \<and> lru_ok s' \<and> LRU_capacity s' = LRU_capacity s"
proof -
  note inv = lru_okD(1) [OF assms] and pos = lru_okD(2) [OF assms] and le = lru_okD(3) [OF assms]
  show ?thesis
  proof (cases "key \<in> set (LRU_list s)")
    case True
    then have "LRU_contains key s"
      using inv by (simp add: lru_inv_contains)
    then have "LRU_insert key val s = Some s"
      by (rule LRU_insert_present)
    with assms show ?thesis by simp
  next
    case False
    show ?thesis
    proof (cases "length (LRU_list s) < unat (LRU_capacity s)")
      case True
      from LRU_insert_room_ex [OF inv False True, of val]
      obtain s' where s': "LRU_insert key val s = Some s'" "lru_inv s'"
        "LRU_list s' = key # LRU_list s" "LRU_capacity s' = LRU_capacity s"
        by blast
      then have "lru_ok s'"
        using True pos by (intro lru_okI) simp_all
      with s' show ?thesis by simp
    next
      case full: False
      then have ge: "unat (LRU_capacity s) \<le> length (LRU_list s)"
        by simp
      with pos have ne: "LRU_list s \<noteq> []"
        by auto
      from LRU_insert_full_ex [OF inv False ge ne, of val]
      obtain s' where s': "LRU_insert key val s = Some s'" "lru_inv s'"
        "LRU_list s' = key # butlast (LRU_list s)" "LRU_capacity s' = LRU_capacity s"
        by blast
      then have "lru_ok s'"
        using le pos ne by (intro lru_okI) simp_all
      with s' show ?thesis by simp
    qed
  qed
qed

lemma LRU_get_map: "LRU_map (snd (LRU_get key s)) = LRU_map s"
  by (cases "Mapping.lookup (LRU_map s) key") (simp_all add: LRU_get_def)

lemma lru_ok_get:
  assumes "lru_ok s"
  shows "lru_ok (snd (LRU_get key s))"
proof -
  from assms have "lru_inv s" "0 < unat (LRU_capacity s)" "LRU_size s \<le> unat (LRU_capacity s)"
    unfolding lru_ok_def by blast+
  moreover from this(1) have "lru_inv (snd (LRU_get key s))"
    by (rule lru_inv_get)
  ultimately show ?thesis
    unfolding lru_ok_def by (simp add: LRU_size_def LRU_get_map LRU_get_capacity)
qed

lemma LRU_evict_capacity: "LRU_capacity (LRU_evict key s) = LRU_capacity s"
  by (cases "Mapping.lookup (LRU_map s) key") (simp_all add: LRU_evict_def)

lemma LRU_evict_length: "length (LRU_list (LRU_evict key s)) \<le> length (LRU_list s)"
proof (cases "Mapping.lookup (LRU_map s) key")
  case None
  then show ?thesis by (simp add: LRU_evict_def)
next
  case (Some v)
  have "length (remove1 key (LRU_list s)) \<le> length (LRU_list s)"
    by (simp add: length_remove1)
  with Some show ?thesis by (simp add: LRU_evict_def)
qed

lemma lru_ok_evict:
  assumes "lru_ok s"
  shows "lru_ok (LRU_evict key s)"
proof -
  note inv = lru_okD(1) [OF assms] and pos = lru_okD(2) [OF assms] and le = lru_okD(3) [OF assms]
  from inv have inv': "lru_inv (LRU_evict key s)" by (rule lru_inv_evict)
  from le LRU_evict_length [of key s]
  have "length (LRU_list (LRU_evict key s)) \<le> unat (LRU_capacity s)"
    by simp
  with pos inv' show ?thesis
    by (intro lru_okI) (simp_all add: LRU_evict_capacity)
qed

lemma lru_ok_clear:
  assumes "lru_ok s"
  shows "lru_ok (LRU_clear s)"
proof -
  have "LRU_size (LRU_clear s) = 0" "LRU_capacity (LRU_clear s) = LRU_capacity s"
    by (simp_all add: LRU_size_def LRU_clear_def)
  moreover from assms have "0 < unat (LRU_capacity s)"
    by (rule lru_okD)
  ultimately show ?thesis
    using lru_inv_clear [of s] unfolding lru_ok_def by simp
qed

lemma LRU_clear_capacity: "LRU_capacity (LRU_clear s) = LRU_capacity s"
  by (simp add: LRU_clear_def)

lemma lru_ok_putIfAbsent:
  assumes "lru_ok b"
  shows "\<exists>r b'. Bucket_putIfAbsent key val b = Some (r, b') \<and> lru_ok b' \<and>
           LRU_capacity b' = LRU_capacity b"
proof (cases "Mapping.lookup (LRU_map b) key")
  case None
  then have g: "LRU_get key b = (None, b)"
    by (simp add: LRU_get_def)
  from lru_ok_insert [OF assms, of key val]
  obtain b' where "LRU_insert key val b = Some b'" "lru_ok b'" "LRU_capacity b' = LRU_capacity b"
    by blast
  then show ?thesis
    by (simp add: Bucket_putIfAbsent_def g)
next
  case (Some v)
  then obtain b' where g: "LRU_get key b = (Some v, b')"
    by (simp add: LRU_get_def)
  then have "b' = snd (LRU_get key b)"
    by simp
  then have "lru_ok b'" "LRU_capacity b' = LRU_capacity b"
    using lru_ok_get [OF assms, of key] by (simp_all add: LRU_get_capacity)
  then show ?thesis
    by (simp add: Bucket_putIfAbsent_def g)
qed

lemma cache_inv_nth:
  assumes "cache_inv c" "i < length (buckets c)"
  shows "lru_ok (buckets c ! i)"
  using cache_invD(4) [OF assms(1)] assms(2) by (simp add: list_all_length)

lemma cache_inv_update:
  assumes "cache_inv c" "i < length (buckets c)" "lru_ok b"
    "LRU_capacity b = LRU_capacity (buckets c ! i)"
  shows "cache_inv (c\<lparr>buckets := (buckets c)[i := b]\<rparr>)"
    and "capacities (c\<lparr>buckets := (buckets c)[i := b]\<rparr>) = capacities c"
proof -
  have "list_all lru_ok ((buckets c)[i := b])"
    using cache_invD(4) [OF assms(1)] assms(2,3)
    by (auto simp: list_all_length nth_list_update)
  then show "cache_inv (c\<lparr>buckets := (buckets c)[i := b]\<rparr>)"
    using cache_invD(1,2,3) [OF assms(1)] unfolding cache_inv_def by simp
  have "(map (\<lambda>b. unat (LRU_capacity b)) (buckets c))[i := unat (LRU_capacity b)]
          = map (\<lambda>b. unat (LRU_capacity b)) (buckets c)"
    using assms(2,4) by (simp add: list_update_same_conv)
  then show "capacities (c\<lparr>buckets := (buckets c)[i := b]\<rparr>) = capacities c"
    by (simp add: capacities_def map_update)
qed

lemma cache_contains_eq:
  assumes "cache_inv c"
  shows "cache_contains hash key hint c =
           Some (LRU_contains key (buckets c ! unat (bucketIndex hash c key hint)))"
  using bucketIndex_in_range [OF assms, of hash key hint]
  by (simp add: cache_contains_def Bucket_contains_def Let_def)

lemma cache_insert_eq:
  assumes "cache_inv c"
  shows "cache_insert hash key val hint c =
           (case LRU_insert key val (buckets c ! unat (bucketIndex hash c key hint)) of
              None \<Rightarrow> None
            | Some b \<Rightarrow>
                Some (c\<lparr>buckets := (buckets c)[unat (bucketIndex hash c key hint) := b]\<rparr>))"
  using bucketIndex_in_range [OF assms, of hash key hint]
  by (simp add: cache_insert_def Bucket_insert_def Let_def)

lemma cache_get_eq:
  assumes "cache_inv c"
  shows "cache_get hash key hint c =
           Some (fst (Bucket_get key (buckets c ! unat (bucketIndex hash c key hint))),
                 c\<lparr>buckets := (buckets c)[unat (bucketIndex hash c key hint) :=
                      snd (LRU_get key (buckets c ! unat (bucketIndex hash c key hint)))]\<rparr>)"
  using bucketIndex_in_range [OF assms, of hash key hint]
  by (simp add: cache_get_def Let_def Bucket_get_snd [symmetric] split: prod.split)

lemma cache_putIfAbsent_eq:
  assumes "cache_inv c"
  shows "cache_putIfAbsent hash key val hint c =
           (case Bucket_putIfAbsent key val (buckets c ! unat (bucketIndex hash c key hint)) of
              None \<Rightarrow> None
            | Some (r, b) \<Rightarrow>
                Some (r, c\<lparr>buckets := (buckets c)[unat (bucketIndex hash c key hint) := b]\<rparr>))"
  using bucketIndex_in_range [OF assms, of hash key hint]
  by (simp add: cache_putIfAbsent_def Let_def)

lemma cache_evict_eq:
  assumes "cache_inv c"
  shows "cache_evict hash key hint c =
           Some (c\<lparr>buckets := (buckets c)[unat (bucketIndex hash c key hint) :=
                      LRU_evict key (buckets c ! unat (bucketIndex hash c key hint))]\<rparr>)"
  using bucketIndex_in_range [OF assms, of hash key hint]
  by (simp add: cache_evict_def Bucket_evict_def Let_def)

lemma cache_insert_inv:
  assumes "cache_inv c"
  shows "\<exists>c'. cache_insert hash key val hint c = Some c' \<and> cache_inv c' \<and>
           capacities c' = capacities c"
proof -
  let ?i = "unat (bucketIndex hash c key hint)"
  have i: "?i < length (buckets c)"
    using assms by (rule bucketIndex_in_range)
  from lru_ok_insert [OF cache_inv_nth [OF assms i], of key val]
  obtain b where b: "LRU_insert key val (buckets c ! ?i) = Some b" "lru_ok b"
    "LRU_capacity b = LRU_capacity (buckets c ! ?i)"
    by blast
  from cache_inv_update [OF assms i b(2,3)] b(1) show ?thesis
    by (simp add: cache_insert_eq [OF assms])
qed

lemma cache_get_inv:
  assumes "cache_inv c"
  shows "\<exists>r c'. cache_get hash key hint c = Some (r, c') \<and> cache_inv c' \<and>
           capacities c' = capacities c"
proof -
  let ?i = "unat (bucketIndex hash c key hint)"
  have i: "?i < length (buckets c)"
    using assms by (rule bucketIndex_in_range)
  have "lru_ok (snd (LRU_get key (buckets c ! ?i)))"
    using cache_inv_nth [OF assms i] by (rule lru_ok_get)
  from cache_inv_update [OF assms i this LRU_get_capacity] show ?thesis
    by (simp add: cache_get_eq [OF assms])
qed

lemma cache_putIfAbsent_inv:
  assumes "cache_inv c"
  shows "\<exists>r c'. cache_putIfAbsent hash key val hint c = Some (r, c') \<and> cache_inv c' \<and>
           capacities c' = capacities c"
proof -
  let ?i = "unat (bucketIndex hash c key hint)"
  have i: "?i < length (buckets c)"
    using assms by (rule bucketIndex_in_range)
  from lru_ok_putIfAbsent [OF cache_inv_nth [OF assms i], of key val]
  obtain r b where b: "Bucket_putIfAbsent key val (buckets c ! ?i) = Some (r, b)" "lru_ok b"
    "LRU_capacity b = LRU_capacity (buckets c ! ?i)"
    by blast
  from cache_inv_update [OF assms i b(2,3)] b(1) show ?thesis
    by (simp add: cache_putIfAbsent_eq [OF assms])
qed

lemma cache_evict_inv:
  assumes "cache_inv c"
  shows "\<exists>c'. cache_evict hash key hint c = Some c' \<and> cache_inv c' \<and>
           capacities c' = capacities c"
proof -
  let ?i = "unat (bucketIndex hash c key hint)"
  have i: "?i < length (buckets c)"
    using assms by (rule bucketIndex_in_range)
  have "lru_ok (LRU_evict key (buckets c ! ?i))"
    using cache_inv_nth [OF assms i] by (rule lru_ok_evict)
  from cache_inv_update [OF assms i this LRU_evict_capacity] show ?thesis
    by (simp add: cache_evict_eq [OF assms])
qed

lemma clear_loop_inv:
  "cache_inv c \<Longrightarrow>
   \<exists>c'. clear_loop i c = Some c' \<and> cache_inv c' \<and> capacities c' = capacities c"
proof (induction i c rule: clear_loop.induct)
  case (1 i c)
  show ?case
  proof (cases "i < bucketsNum c")
    case True
    then have r: "unat i < length (buckets c)"
      using cache_invD(3) [OF "1.prems"] by (simp add: word_less_nat_alt)
    let ?c = "c\<lparr>buckets := (buckets c)[unat i := Bucket_clear (buckets c ! unat i)]\<rparr>"
    have ok: "lru_ok (Bucket_clear (buckets c ! unat i))"
      unfolding Bucket_clear_def using cache_inv_nth [OF "1.prems" r] by (rule lru_ok_clear)
    have cap: "LRU_capacity (Bucket_clear (buckets c ! unat i)) = LRU_capacity (buckets c ! unat i)"
      by (simp add: Bucket_clear_def LRU_clear_capacity)
    note u = cache_inv_update [OF "1.prems" r ok cap]
    from "1.IH" [OF True r u(1)]
    obtain c' where c': "clear_loop (i + 1) ?c = Some c'" "cache_inv c'"
      "capacities c' = capacities ?c"
      by blast
    have "clear_loop i c = clear_loop (i + 1) ?c"
      using True r by (subst clear_loop.simps) simp
    with c' u(2) show ?thesis
      by simp
  next
    case False
    then have "clear_loop i c = Some c"
      by (subst clear_loop.simps) simp
    with "1.prems" show ?thesis
      by simp
  qed
qed

lemma apply_op_inv:
  assumes "cache_inv c"
  shows "\<exists>c'. apply_op hash x c = Some c' \<and> cache_inv c' \<and> capacities c' = capacities c"
proof (cases x)
  case (Contains key hint)
  with assms show ?thesis
    by (simp add: cache_contains_eq)
next
  case (Insert key val hint)
  with cache_insert_inv [OF assms, of hash key val hint] show ?thesis
    by simp
next
  case (Get key hint)
  with cache_get_inv [OF assms, of hash key hint] show ?thesis
    by auto
next
  case (PutIfAbsent key val hint)
  with cache_putIfAbsent_inv [OF assms, of hash key val hint] show ?thesis
    by auto
next
  case (Evict key hint)
  with cache_evict_inv [OF assms, of hash key hint] show ?thesis
    by simp
next
  case Clear
  with clear_loop_inv [OF assms, of 0] show ?thesis
    by (simp add: cache_clear_def)
qed

lemma apply_ops_inv:
  "cache_inv c \<Longrightarrow>
   \<exists>c'. apply_ops hash xs c = Some c' \<and> cache_inv c' \<and> capacities c' = capacities c"
proof (induction xs arbitrary: c)
  case Nil
  then show ?case by simp
next
  case (Cons x xs)
  from apply_op_inv [OF Cons.prems, of hash x]
  obtain c1 where c1: "apply_op hash x c = Some c1" "cache_inv c1" "capacities c1 = capacities c"
    by blast
  from Cons.IH [OF c1(2)]
  obtain c' where "apply_ops hash xs c1 = Some c'" "cache_inv c'" "capacities c' = capacities c1"
    by blast
  with c1 show ?case
    by simp
qed

lemma reach_inv:
  assumes "ConcurrentLRUCache_new capacity bExp = Inr c0" "apply_ops hash xs c0 = Some c"
  shows "cache_inv c" "capacities c = capacities c0"
proof -
  from apply_ops_inv [OF ctor_cache_inv [OF assms(1)], of hash xs] assms(2)
  show "cache_inv c" "capacities c = capacities c0"
    by simp_all
qed

lemma ctor_capacities_sum:
  assumes "ConcurrentLRUCache_new capacity bExp = Inr c"
  shows "sum_list (capacities c) = unat capacity"
proof -
  let ?n = "(2::nat) ^ unat bExp" and ?C = "unat capacity"
  have "sum_list (capacities c) = (?n - 1) * (?C div ?n) + (?C div ?n + ?C mod ?n)"
    unfolding ctor_capacities [OF assms] by (simp add: sum_list_replicate)
  also have "\<dots> = ?n * (?C div ?n) + ?C mod ?n"
    by (simp add: algebra_simps mult_eq_if)
  also have "\<dots> = ?C"
    by simp
  finally show ?thesis .
qed

lemma cache_inv_sizes:
  assumes "cache_inv c"
  shows "\<forall>i < length (buckets c). LRU_size (buckets c ! i) \<le> capacities c ! i"
    and "sum_list (sizes c) \<le> sum_list (capacities c)"
proof -
  have ok: "\<And>b. b \<in> set (buckets c) \<Longrightarrow> LRU_size b \<le> unat (LRU_capacity b)"
    using cache_invD(4) [OF assms] by (simp add: list_all_iff lru_ok_def)
  then show "\<forall>i < length (buckets c). LRU_size (buckets c ! i) \<le> capacities c ! i"
    by (simp add: capacities_def)
  show "sum_list (sizes c) \<le> sum_list (capacities c)"
    unfolding sizes_def capacities_def using ok by (rule sum_list_mono)
qed

lemma ctor_c_11_2: "ConcurrentLRUCache_new 11 2 = Inr c_11_2"
  unfolding c_11_2_def by (rule ctor_11_2)

text \<open>
  Claim C4. In every cache that a successful construction and any sequence of operations
  lead to, the shard index of a key and a hint is \<open>hint & (numShards - 1)\<close> for
  \<open>hint \<ge> 0\<close> and \<open>hash(key) & (numShards - 1)\<close> for \<open>hint < 0\<close>, it is less than
  \<open>numShards\<close>, and it is an index into the vector of buckets.
\<close>

theorem C4_bucket_index:
  assumes "ConcurrentLRUCache_new capacity bExp = Inr c0" "apply_ops hash xs c0 = Some c"
  shows "bucketIndex hash c key hint =
           (if 0 \<le> sint hint then hint AND (bucketsNum c - 1)
            else ucast (hash key AND (ucast (bucketsNum c) - 1))) \<and>
         bucketIndex hash c key hint < bucketsNum c \<and>
         unat (bucketIndex hash c key hint) < length (buckets c)"
proof -
  have inv: "cache_inv c"
    using assms by (rule reach_inv)
  show ?thesis
  proof (cases "0 \<le> sint hint")
    case True
    with bucketIndex_hint [OF inv True, of hash key] bucketIndex_less [OF inv, of hash key hint]
      bucketIndex_in_range [OF inv, of hash key hint]
    show ?thesis by simp
  next
    case False
    then have neg: "sint hint < 0" by simp
    with False bucketIndex_hash [OF inv neg, of hash key] bucketIndex_less [OF inv, of hash key hint]
      bucketIndex_in_range [OF inv, of hash key hint]
    show ?thesis by simp
  qed
qed

theorem C4_bucket_index_witness:
  "bucketIndex (\<lambda>k. of_nat k) c_11_2 (7::nat) 6 = 2 \<and>
   bucketIndex (\<lambda>k. of_nat k) c_11_2 (7::nat) (- 1) = 3"
proof -
  have run: "apply_ops (\<lambda>k. of_nat k) [] c_11_2 = Some c_11_2"
    by simp
  have n: "bucketsNum c_11_2 = 4"
    by (simp add: c_11_2_def)
  from C4_bucket_index [OF ctor_c_11_2 run, of 7 6] C4_bucket_index [OF ctor_c_11_2 run, of 7 "- 1"]
  show ?thesis
    unfolding n by simp
qed

text \<open>
  Claim C6. After a successful construction every sequence of operations has a result,
  in which each shard holds no more entries than the capacity the constructor gave it,
  and the sizes of all shards add up to no more than the total capacity.
\<close>

theorem C6_capacity_bound:
  assumes "ConcurrentLRUCache_new capacity bExp = Inr c0"
  shows "\<exists>c. apply_ops hash xs c0 = Some c \<and>
           length (buckets c) = length (buckets c0) \<and>
           (\<forall>i < length (buckets c). LRU_size (buckets c ! i) \<le> capacities c0 ! i) \<and>
           sum_list (sizes c) \<le> unat capacity"
proof -
  from apply_ops_inv [OF ctor_cache_inv [OF assms], of hash xs]
  obtain c where c: "apply_ops hash xs c0 = Some c" "cache_inv c" "capacities c = capacities c0"
    by blast
  have "length (capacities c) = length (capacities c0)"
    using c(3) by simp
  then have len: "length (buckets c) = length (buckets c0)"
    by (simp add: capacities_def)
  from cache_inv_sizes [OF c(2)] c(3) ctor_capacities_sum [OF assms]
  have "\<forall>i < length (buckets c). LRU_size (buckets c ! i) \<le> capacities c0 ! i"
    and "sum_list (sizes c) \<le> unat capacity"
    by simp_all
  with c(1) len show ?thesis
    by blast
qed

theorem C6_capacity_bound_witness:
  "\<exists>c. apply_ops (\<lambda>k. of_nat k)
          [Insert (1::nat) (10::nat) 0, Insert 2 20 0, Insert 3 30 0, Get 2 0, Clear] c_11_2 = Some c \<and>
        LRU_size (buckets c ! 0) \<le> 2 \<and> LRU_size (buckets c ! 3) \<le> 5 \<and>
        sum_list (sizes c) \<le> 11"
proof -
  from C6_capacity_bound [OF ctor_c_11_2, of "\<lambda>k. of_nat k"
      "[Insert (1::nat) (10::nat) 0, Insert 2 20 0, Insert 3 30 0, Get 2 0, Clear]"]
  obtain c where c: "apply_ops (\<lambda>k. of_nat k)
          [Insert (1::nat) (10::nat) 0, Insert 2 20 0, Insert 3 30 0, Get 2 0, Clear] c_11_2 = Some c"
    "length (buckets c) = length (buckets c_11_2)"
    "\<forall>i < length (buckets c). LRU_size (buckets c ! i) \<le> capacities c_11_2 ! i"
    "sum_list (sizes c) \<le> unat (11 :: size_t)"
    by blast
  have "length (buckets c) = 4"
    using c(2) by (simp add: c_11_2_def)
  with c(3) have "LRU_size (buckets c ! 0) \<le> capacities c_11_2 ! 0"
    "LRU_size (buckets c ! 3) \<le> capacities c_11_2 ! 3"
    by simp_all
  then have "LRU_size (buckets c ! 0) \<le> 2" "LRU_size (buckets c ! 3) \<le> 5"
    by (simp_all add: c_11_2_def capacities_def Bucket_new_def LRU_new_def)
  with c(1,4) show ?thesis
    by auto
qed

section \<open>The operations on a reachable cache\<close>

lemma cache_update_same:
  "i < length (buckets c) \<Longrightarrow> c\<lparr>buckets := (buckets c)[i := buckets c ! i]\<rparr> = c"
  by (simp add: list_update_id)

lemma LRU_get_miss: "\<not> LRU_contains key s \<Longrightarrow> LRU_get key s = (None, s)"
  by (simp add: LRU_get_def LRU_contains_def)

lemma LRU_get_hit:
  "Mapping.lookup (LRU_map s) key = Some v \<Longrightarrow> fst (LRU_get key s) = Some v"
  by (simp add: LRU_get_def)

lemma LRU_evict_absent: "\<not> LRU_contains key s \<Longrightarrow> LRU_evict key s = s"
  by (simp add: LRU_evict_def LRU_contains_def)

lemma LRU_evict_not_contains: "\<not> LRU_contains key (LRU_evict key s)"
  by (cases "Mapping.lookup (LRU_map s) key") (simp_all add: LRU_evict_def LRU_contains_def)

lemma LRU_evict_idem: "LRU_evict key (LRU_evict key s) = LRU_evict key s"
  using LRU_evict_not_contains by (rule LRU_evict_absent)

lemma LRU_insert_contains:
  assumes "LRU_insert key val s = Some s'"
  shows "LRU_contains key s'"
proof (cases "Mapping.lookup (LRU_map s) key")
  case None
  with assms obtain t where "s' = t\<lparr>LRU_list := key # LRU_list t,
      LRU_map := Mapping.update key val (LRU_map t)\<rparr>"
    by (auto simp: LRU_insert_def split: option.splits)
  then show ?thesis
    by (simp add: LRU_contains_def)
next
  case (Some v)
  with assms show ?thesis
    by (simp add: LRU_insert_def LRU_contains_def)
qed

lemma LRU_insert_lookup_new:
  assumes "\<not> LRU_contains key s" "LRU_insert key val s = Some s'"
  shows "Mapping.lookup (LRU_map s') key = Some val"
proof -
  from assms(1) have "Mapping.lookup (LRU_map s) key = None"
    by (simp add: LRU_contains_def)
  with assms(2) obtain t where "s' = t\<lparr>LRU_list := key # LRU_list t,
      LRU_map := Mapping.update key val (LRU_map t)\<rparr>"
    by (auto simp: LRU_insert_def split: option.splits)
  then show ?thesis
    by simp
qed

lemma LRU_insert_lookup_old:
  assumes "Mapping.lookup (LRU_map s) key = Some v" "LRU_insert key val s = Some s'"
  shows "Mapping.lookup (LRU_map s') key = Some v"
  using assms by (simp add: LRU_insert_def)

lemma bucketIndex_update:
  "bucketIndex hash (c\<lparr>buckets := bs\<rparr>) key hint = bucketIndex hash c key hint"
  by (simp add: bucketIndex_def)

lemma contains_c_11_2:
  "cache_contains (\<lambda>k. of_nat k) (7::nat) 0 c_11_2 = Some False"
  by (simp add: cache_contains_def bucketIndex_def c_11_2_def Bucket_contains_def
      LRU_contains_def Bucket_new_def LRU_new_def)

lemma apply_ops_Nil: "apply_ops hash [] c = Some c"
  by simp

lemma run_c_two:
  "apply_ops (\<lambda>k. of_nat k) [Insert 7 10 0, Insert 8 20 0] c_11_2 = Some c_two"
  by (simp add: c_11_2_def c_two_def cache_insert_def bucketIndex_def Bucket_insert_def
      LRU_insert_def LRU_size_def Mapping.size_def Mapping.lookup_update' Bucket_new_def
      LRU_new_def)

lemma index_c_two:
  "unat (bucketIndex (\<lambda>k. of_nat k) c_two key 0) = 0"
  by (simp add: bucketIndex_def c_two_def)

lemma bucket_c_two:
  "buckets c_two ! 0 = \<lparr>LRU_map = Mapping.update 8 20 (Mapping.update 7 10 Mapping.empty),
                LRU_list = [8, 7], LRU_capacity = 2\<rparr>"
  by (simp add: c_two_def)

lemma cache_insert_present:
  assumes "cache_inv c" "LRU_contains k (buckets c ! unat (bucketIndex hash c k hint))"
  shows "cache_insert hash k v hint c = Some c"
proof -
  let ?i = "unat (bucketIndex hash c k hint)"
  have i: "?i < length (buckets c)"
    using assms(1) by (rule bucketIndex_in_range)
  have "LRU_insert k v (buckets c ! ?i) = Some (buckets c ! ?i)"
    using assms(2) by (rule LRU_insert_present)
  then show ?thesis
    using cache_update_same [OF i] by (simp add: cache_insert_eq [OF assms(1)])
qed

lemma inv_c_two: "cache_inv c_two"
  using ctor_c_11_2 run_c_two by (rule reach_inv)

lemma contains_7_c_two:
  "LRU_contains 7 (buckets c_two ! unat (bucketIndex (\<lambda>k. of_nat k) c_two 7 0))"
  by (simp add: index_c_two bucket_c_two LRU_contains_def Mapping.lookup_update')

text \<open>
  Claim C5, as amended. In every reachable cache: \<open>insert\<close> of a key that is in its
  shard leaves the whole cache, values and recency order, as it is. \<open>insert(k, v1)\<close>
  followed by \<open>insert(k, v2)\<close> with the same hint: both calls have a result, \<open>k\<close> is in
  its shard after the first, and the second leaves the whole cache as it is. \<open>get(k)\<close>
  afterwards returns \<open>v1\<close> if \<open>k\<close> was not in its shard before the first insert, and
  the value that was there if it was.
\<close>

theorem C5_insert_no_overwrite:
  assumes "ConcurrentLRUCache_new capacity bExp = Inr c0" "apply_ops hash xs c0 = Some c"
  shows "(cache_contains hash k hint c = Some True \<longrightarrow>
            cache_insert hash k v1 hint c = Some c) \<and>
         (\<exists>c1. cache_insert hash k v1 hint c = Some c1 \<and>
           cache_contains hash k hint c1 = Some True \<and>
           cache_insert hash k v2 hint c1 = Some c1 \<and>
           (if cache_contains hash k hint c = Some False
            then \<exists>c2. cache_get hash k hint c1 = Some (Value v1, c2)
            else \<exists>v c2. Mapping.lookup
                     (LRU_map (buckets c ! unat (bucketIndex hash c k hint))) k = Some v \<and>
                   cache_get hash k hint c1 = Some (Value v, c2)))"
proof -
  let ?i = "unat (bucketIndex hash c k hint)"
  let ?b = "buckets c ! ?i"
  have inv: "cache_inv c"
    using assms by (rule reach_inv)
  have i: "?i < length (buckets c)"
    using inv by (rule bucketIndex_in_range)
  have con: "cache_contains hash k hint c = Some (LRU_contains k ?b)"
    using inv by (rule cache_contains_eq)
  have present: "cache_contains hash k hint c = Some True \<longrightarrow>
      cache_insert hash k v1 hint c = Some c"
  proof
    assume "cache_contains hash k hint c = Some True"
    with con have "LRU_contains k ?b"
      by simp
    with inv show "cache_insert hash k v1 hint c = Some c"
      by (rule cache_insert_present)
  qed
  from lru_ok_insert [OF cache_inv_nth [OF inv i], of k v1]
  obtain b1 where b1: "LRU_insert k v1 ?b = Some b1" "lru_ok b1"
    "LRU_capacity b1 = LRU_capacity ?b"
    by blast
  let ?c1 = "c\<lparr>buckets := (buckets c)[?i := b1]\<rparr>"
  have ins1: "cache_insert hash k v1 hint c = Some ?c1"
    using b1(1) by (simp add: cache_insert_eq [OF inv])
  have inv1: "cache_inv ?c1"
    using inv i b1(2,3) by (rule cache_inv_update)
  have idx: "unat (bucketIndex hash ?c1 k hint) = ?i"
    by (simp only: bucketIndex_update)
  have nth: "buckets ?c1 ! ?i = b1"
    using i by simp
  have cont: "LRU_contains k b1"
    using b1(1) by (rule LRU_insert_contains)
  then have cont1: "LRU_contains k (buckets ?c1 ! unat (bucketIndex hash ?c1 k hint))"
    by (simp only: idx nth)
  have con1: "cache_contains hash k hint ?c1 = Some True"
    unfolding cache_contains_eq [OF inv1] using cont1 by simp
  have ins2: "cache_insert hash k v2 hint ?c1 = Some ?c1"
    using inv1 cont1 by (rule cache_insert_present)
  have get: "cache_get hash k hint ?c1 =
      Some (fst (Bucket_get k b1), ?c1\<lparr>buckets := (buckets ?c1)[?i := snd (LRU_get k b1)]\<rparr>)"
    unfolding cache_get_eq [OF inv1] idx nth ..
  have "\<exists>c1. cache_insert hash k v1 hint c = Some c1 \<and>
           cache_contains hash k hint c1 = Some True \<and>
           cache_insert hash k v2 hint c1 = Some c1 \<and>
           (if cache_contains hash k hint c = Some False
            then \<exists>c2. cache_get hash k hint c1 = Some (Value v1, c2)
            else \<exists>v c2. Mapping.lookup (LRU_map ?b) k = Some v \<and>
                   cache_get hash k hint c1 = Some (Value v, c2))"
  proof (cases "LRU_contains k ?b")
    case False
    then have "Mapping.lookup (LRU_map b1) k = Some v1"
      using b1(1) by (rule LRU_insert_lookup_new)
    then have "fst (Bucket_get k b1) = Value v1"
      by (simp add: Bucket_get_fst LRU_get_hit)
    with ins1 con1 ins2 get con False show ?thesis
      by simp
  next
    case True
    then obtain v where v: "Mapping.lookup (LRU_map ?b) k = Some v"
      by (auto simp: LRU_contains_def)
    then have "Mapping.lookup (LRU_map b1) k = Some v"
      using b1(1) by (rule LRU_insert_lookup_old)
    then have "fst (Bucket_get k b1) = Value v"
      by (simp add: Bucket_get_fst LRU_get_hit)
    with ins1 con1 ins2 get con True v show ?thesis
      by simp
  qed
  with present show ?thesis
    by (rule conjI)
qed

theorem C5_insert_no_overwrite_witness:
  "cache_insert (\<lambda>k. of_nat k) (7::nat) (99::nat) 0 c_two = Some c_two \<and>
   (\<exists>c1. cache_insert (\<lambda>k. of_nat k) (7::nat) (10::nat) 0 c_11_2 = Some c1 \<and>
         cache_insert (\<lambda>k. of_nat k) 7 20 0 c1 = Some c1 \<and>
         (\<exists>c2. cache_get (\<lambda>k. of_nat k) 7 0 c1 = Some (Value 10, c2)))"
proof -
  have t: "cache_contains (\<lambda>k. of_nat k) 7 0 c_two = Some True"
    unfolding cache_contains_eq [OF inv_c_two] using contains_7_c_two by simp
  from C5_insert_no_overwrite [OF ctor_c_11_2 run_c_two, of 7 0 99 55] t
  have a: "cache_insert (\<lambda>k. of_nat k) (7::nat) (99::nat) 0 c_two = Some c_two"
    by (simp only: simp_thms)
  from C5_insert_no_overwrite [OF ctor_c_11_2 apply_ops_Nil, of "\<lambda>k. of_nat k" 7 0 10 20]
  have "\<exists>c1. cache_insert (\<lambda>k. of_nat k) (7::nat) (10::nat) 0 c_11_2 = Some c1 \<and>
         cache_contains (\<lambda>k. of_nat k) 7 0 c1 = Some True \<and>
         cache_insert (\<lambda>k. of_nat k) 7 20 0 c1 = Some c1 \<and>
         (\<exists>c2. cache_get (\<lambda>k. of_nat k) 7 0 c1 = Some (Value 10, c2))"
    by (simp only: contains_c_11_2 simp_thms if_True)
  then have "\<exists>c1. cache_insert (\<lambda>k. of_nat k) (7::nat) (10::nat) 0 c_11_2 = Some c1 \<and>
         cache_insert (\<lambda>k. of_nat k) 7 20 0 c1 = Some c1 \<and>
         (\<exists>c2. cache_get (\<lambda>k. of_nat k) 7 0 c1 = Some (Value 10, c2))"
    by blast
  with a show ?thesis
    by (rule conjI)
qed

text \<open>
  The claim as it was written, for every cache, fails on the cache that holds 7 with the
  value 10 in shard 0: \<open>insert(7, 99, 0)\<close>, then \<open>insert(7, 55, 0)\<close>, then
  \<open>get(7, 0)\<close> returns 10, not 99.
\<close>

theorem C5_insert_no_overwrite_counterexample:
  "ConcurrentLRUCache_new 11 2 = Inr c_11_2 \<and>
   apply_ops of_nat [Insert 7 10 0, Insert 8 20 0] c_11_2 = Some c_two \<and>
   cache_insert of_nat 7 99 0 c_two = Some c_two \<and>
   cache_insert of_nat 7 55 0 c_two = Some c_two \<and>
   map_option fst (cache_get of_nat 7 0 c_two) = Some (Value 10) \<and>
   map_option fst (cache_get of_nat 7 0 c_two) \<noteq> Some (Value 99)"
proof -
  have i1: "cache_insert of_nat 7 99 0 c_two = Some c_two"
    using inv_c_two contains_7_c_two by (rule cache_insert_present)
  have i2: "cache_insert of_nat 7 55 0 c_two = Some c_two"
    using inv_c_two contains_7_c_two by (rule cache_insert_present)
  have "Mapping.lookup (LRU_map (buckets c_two ! unat (bucketIndex of_nat c_two 7 0))) 7 = Some 10"
    using index_c_two [of 7] by (simp add: bucket_c_two Mapping.lookup_update')
  then have "fst (Bucket_get 7 (buckets c_two ! unat (bucketIndex of_nat c_two 7 0))) = Value 10"
    by (simp only: Bucket_get_fst LRU_get_hit option.case)
  then have g: "map_option fst (cache_get of_nat 7 0 c_two) = Some (Value 10)"
    by (simp add: cache_get_eq [OF inv_c_two])
  have n: "map_option fst (cache_get of_nat 7 0 c_two) \<noteq> Some (Value 99)"
    unfolding g by simp
  from ctor_c_11_2 run_c_two i1 i2 g n show ?thesis
    by (intro conjI)
qed

text \<open>
  Claim C7. In every reachable cache, \<open>get\<close> of a key that is not in its shard returns
  \<open>Status::Error()\<close> and leaves the whole cache as it is; \<open>get\<close> of a key that is there
  returns its value, moves the key to the front of its shard's list and changes nothing
  else.
\<close>

theorem C7_get:
  assumes "ConcurrentLRUCache_new capacity bExp = Inr c0" "apply_ops hash xs c0 = Some c"
  shows "case Mapping.lookup (LRU_map (buckets c ! unat (bucketIndex hash c key hint))) key of
           None \<Rightarrow> cache_get hash key hint c = Some (StatusError, c)
         | Some v \<Rightarrow>
             (\<exists>c'. cache_get hash key hint c = Some (Value v, c') \<and>
                LRU_list (buckets c' ! unat (bucketIndex hash c key hint)) =
                  key # remove1 key (LRU_list (buckets c ! unat (bucketIndex hash c key hint))) \<and>
                LRU_map (buckets c' ! unat (bucketIndex hash c key hint)) =
                  LRU_map (buckets c ! unat (bucketIndex hash c key hint)) \<and>
                c' = c\<lparr>buckets := (buckets c)[unat (bucketIndex hash c key hint) :=
                        buckets c' ! unat (bucketIndex hash c key hint)]\<rparr>)"
proof -
  let ?i = "unat (bucketIndex hash c key hint)"
  let ?b = "buckets c ! ?i"
  have inv: "cache_inv c"
    using assms by (rule reach_inv)
  have i: "?i < length (buckets c)"
    using inv by (rule bucketIndex_in_range)
  note get = cache_get_eq [OF inv, of hash key hint]
  show ?thesis
  proof (cases "Mapping.lookup (LRU_map ?b) key")
    case None
    then have "\<not> LRU_contains key ?b"
      by (simp add: LRU_contains_def)
    then have g: "LRU_get key ?b = (None, ?b)"
      by (rule LRU_get_miss)
    then have "fst (Bucket_get key ?b) = StatusError"
      by (simp add: Bucket_get_fst)
    with get g have "cache_get hash key hint c = Some (StatusError, c)"
      using cache_update_same [OF i] by simp
    with None show ?thesis
      by simp
  next
    case (Some v)
    then have "LRU_contains key ?b"
      by (simp add: LRU_contains_def)
    then have l: "LRU_list (snd (LRU_get key ?b)) = key # remove1 key (LRU_list ?b)"
      by (rule LRU_get_list)
    have m: "LRU_map (snd (LRU_get key ?b)) = LRU_map ?b"
      by (rule LRU_get_map)
    have "fst (Bucket_get key ?b) = Value v"
      using Some by (simp add: Bucket_get_fst LRU_get_hit)
    with get have "cache_get hash key hint c =
        Some (Value v, c\<lparr>buckets := (buckets c)[?i := snd (LRU_get key ?b)]\<rparr>)"
      by simp
    with Some l m i show ?thesis
      by simp
  qed
qed

theorem C7_get_witness:
  "cache_get (\<lambda>k. of_nat k) 9 0 c_two = Some (StatusError, c_two) \<and>
   (\<exists>c'. cache_get (\<lambda>k. of_nat k) 7 0 c_two = Some (Value 10, c') \<and>
         LRU_list (buckets c' ! 0) = [7, 8])"
proof -
  from C7_get [OF ctor_c_11_2 run_c_two, of 9 0]
  have miss: "cache_get (\<lambda>k. of_nat k) 9 0 c_two = Some (StatusError, c_two)"
    by (simp add: index_c_two bucket_c_two Mapping.lookup_update')
  from C7_get [OF ctor_c_11_2 run_c_two, of 7 0]
  obtain c' where "cache_get (\<lambda>k. of_nat k) 7 0 c_two = Some (Value 10, c')"
    "LRU_list (buckets c' ! 0) = [7, 8]"
    by (simp add: index_c_two bucket_c_two Mapping.lookup_update') blast
  with miss show ?thesis
    by blast
qed

text \<open>
  Claim C8. In every reachable cache, \<open>evict\<close> of a key that is not in its shard leaves
  the whole cache as it is, and a second \<open>evict\<close> of the same key directly after the
  first changes nothing any more.
\<close>

theorem C8_evict_idempotent:
  assumes "ConcurrentLRUCache_new capacity bExp = Inr c0" "apply_ops hash xs c0 = Some c"
  shows "(cache_contains hash key hint c = Some False \<longrightarrow> cache_evict hash key hint c = Some c) \<and>
         (\<exists>c1. cache_evict hash key hint c = Some c1 \<and> cache_evict hash key hint c1 = Some c1 \<and>
               cache_contains hash key hint c1 = Some False)"
proof -
  let ?i = "unat (bucketIndex hash c key hint)"
  let ?b = "buckets c ! ?i"
  have inv: "cache_inv c"
    using assms by (rule reach_inv)
  have i: "?i < length (buckets c)"
    using inv by (rule bucketIndex_in_range)
  let ?c1 = "c\<lparr>buckets := (buckets c)[?i := LRU_evict key ?b]\<rparr>"
  have ev: "cache_evict hash key hint c = Some ?c1"
    using inv by (rule cache_evict_eq)
  have con: "cache_contains hash key hint c = Some (LRU_contains key ?b)"
    using inv by (rule cache_contains_eq)
  have absent: "cache_contains hash key hint c = Some False \<longrightarrow> cache_evict hash key hint c = Some c"
  proof
    assume "cache_contains hash key hint c = Some False"
    with con have "\<not> LRU_contains key ?b"
      by simp
    then have "LRU_evict key ?b = ?b"
      by (rule LRU_evict_absent)
    with ev cache_update_same [OF i] show "cache_evict hash key hint c = Some c"
      by simp
  qed
  have inv1: "cache_inv ?c1"
    using inv i lru_ok_evict [OF cache_inv_nth [OF inv i]] LRU_evict_capacity
    by (rule cache_inv_update)
  have idx: "unat (bucketIndex hash ?c1 key hint) = ?i"
    by (simp only: bucketIndex_update)
  have nth: "buckets ?c1 ! ?i = LRU_evict key ?b"
    using i by simp
  have ev2: "cache_evict hash key hint ?c1 = Some ?c1"
    unfolding cache_evict_eq [OF inv1] idx nth LRU_evict_idem by (simp add: list_update_id)
  have con1: "cache_contains hash key hint ?c1 = Some False"
    unfolding cache_contains_eq [OF inv1] idx nth using LRU_evict_not_contains [of key ?b] by simp
  from absent ev ev2 con1 show ?thesis
    by blast
qed

theorem C8_evict_idempotent_witness:
  "cache_evict (\<lambda>k. of_nat k) 9 0 c_two = Some c_two \<and>
   (\<exists>c1. cache_evict (\<lambda>k. of_nat k) 7 0 c_two = Some c1 \<and>
         cache_evict (\<lambda>k. of_nat k) 7 0 c1 = Some c1 \<and>
         cache_contains (\<lambda>k. of_nat k) 7 0 c1 = Some False)"
proof -
  have "cache_contains (\<lambda>k. of_nat k) 9 0 c_two = Some False"
    by (simp add: cache_contains_def Let_def index_c_two bucket_c_two Bucket_contains_def
        LRU_contains_def Mapping.lookup_update') (simp add: c_two_def)
  with C8_evict_idempotent [OF ctor_c_11_2 run_c_two, of 9 0]
    C8_evict_idempotent [OF ctor_c_11_2 run_c_two, of 7 0]
  show ?thesis
    by simp
qed

text \<open>
  Claim C9. In every reachable cache, \<open>contains\<close> returns whether the key is in the map
  (equivalently, in the list) of the shard that the routing selects, and a \<open>contains\<close>
  call leaves the cache as it is.
\<close>

theorem C9_contains:
  assumes "ConcurrentLRUCache_new capacity bExp = Inr c0" "apply_ops hash xs c0 = Some c"
  shows "cache_contains hash key hint c =
           Some (key \<in> Mapping.keys (LRU_map (buckets c ! unat (bucketIndex hash c key hint)))) \<and>
         cache_contains hash key hint c =
           Some (key \<in> set (LRU_list (buckets c ! unat (bucketIndex hash c key hint)))) \<and>
         apply_op hash (Contains key hint) c = Some c"
proof -
  let ?i = "unat (bucketIndex hash c key hint)"
  have inv: "cache_inv c"
    using assms by (rule reach_inv)
  have i: "?i < length (buckets c)"
    using inv by (rule bucketIndex_in_range)
  have con: "cache_contains hash key hint c = Some (LRU_contains key (buckets c ! ?i))"
    using inv by (rule cache_contains_eq)
  have "lru_inv (buckets c ! ?i)"
    using cache_inv_nth [OF inv i] by (rule lru_okD)
  then have "LRU_contains key (buckets c ! ?i) \<longleftrightarrow> key \<in> set (LRU_list (buckets c ! ?i))"
    by (rule lru_inv_contains)
  with con show ?thesis
    by (simp add: LRU_contains_keys)
qed

theorem C9_contains_witness:
  "cache_contains (\<lambda>k. of_nat k) 7 0 c_two = Some True \<and>
   cache_contains (\<lambda>k. of_nat k) 9 0 c_two = Some False"
  using C9_contains [OF ctor_c_11_2 run_c_two, of 7 0] C9_contains [OF ctor_c_11_2 run_c_two, of 9 0]
  by (simp add: index_c_two bucket_c_two)

text \<open>
  Claim C10. In every reachable cache, \<open>putIfAbsent\<close> of a key that is in its shard
  returns the value that is there and leaves exactly the cache that \<open>get\<close> of this key
  leaves: the key is at the front of its shard's list and the map is unchanged.
\<close>

theorem C10_putIfAbsent_promotes:
  assumes "ConcurrentLRUCache_new capacity bExp = Inr c0" "apply_ops hash xs c0 = Some c"
    and "Mapping.lookup (LRU_map (buckets c ! unat (bucketIndex hash c key hint))) key = Some v"
  shows "\<exists>c'. cache_putIfAbsent hash key val hint c = Some (Value v, c') \<and>
           cache_get hash key hint c = Some (Value v, c') \<and>
           LRU_list (buckets c' ! unat (bucketIndex hash c key hint)) =
             key # remove1 key (LRU_list (buckets c ! unat (bucketIndex hash c key hint))) \<and>
           LRU_map (buckets c' ! unat (bucketIndex hash c key hint)) =
             LRU_map (buckets c ! unat (bucketIndex hash c key hint))"
proof -
  let ?i = "unat (bucketIndex hash c key hint)"
  let ?b = "buckets c ! ?i"
  have inv: "cache_inv c"
    using assms(1,2) by (rule reach_inv)
  have i: "?i < length (buckets c)"
    using inv by (rule bucketIndex_in_range)
  let ?c' = "c\<lparr>buckets := (buckets c)[?i := snd (LRU_get key ?b)]\<rparr>"
  have f: "fst (LRU_get key ?b) = Some v"
    using assms(3) by (rule LRU_get_hit)
  then have g: "LRU_get key ?b = (Some v, snd (LRU_get key ?b))"
    by (metis prod.collapse)
  have "Bucket_putIfAbsent key val ?b = Some (Value v, snd (LRU_get key ?b))"
    unfolding Bucket_putIfAbsent_def by (subst g) simp
  then have put: "cache_putIfAbsent hash key val hint c = Some (Value v, ?c')"
    by (simp add: cache_putIfAbsent_eq [OF inv])
  have "fst (Bucket_get key ?b) = Value v"
    using f by (simp add: Bucket_get_fst)
  then have get: "cache_get hash key hint c = Some (Value v, ?c')"
    by (simp add: cache_get_eq [OF inv])
  have "LRU_contains key ?b"
    using assms(3) by (simp add: LRU_contains_def)
  then have l: "LRU_list (snd (LRU_get key ?b)) = key # remove1 key (LRU_list ?b)"
    by (rule LRU_get_list)
  have m: "LRU_map (snd (LRU_get key ?b)) = LRU_map ?b"
    by (rule LRU_get_map)
  from put get l m i show ?thesis
    by simp
qed


theorem C10_putIfAbsent_promotes_witness:
  "\<exists>c'. cache_putIfAbsent (\<lambda>k. of_nat k) 7 99 0 c_two = Some (Value 10, c') \<and>
        cache_get (\<lambda>k. of_nat k) 7 0 c_two = Some (Value 10, c') \<and>
        LRU_list (buckets c' ! 0) = [7, 8]"
proof -
  have "Mapping.lookup (LRU_map (buckets c_two ! unat (bucketIndex (\<lambda>k. of_nat k) c_two 7 0))) 7
          = Some 10"
    by (simp add: index_c_two bucket_c_two Mapping.lookup_update')
  from C10_putIfAbsent_promotes [OF ctor_c_11_2 run_c_two this, of 99]
  obtain c' where "cache_putIfAbsent (\<lambda>k. of_nat k) 7 99 0 c_two = Some (Value 10, c')"
    "cache_get (\<lambda>k. of_nat k) 7 0 c_two = Some (Value 10, c')"
    "LRU_list (buckets c' ! 0) = [7, 8]"
    by (simp add: index_c_two bucket_c_two) blast
  then show ?thesis
    by blast
qed

end
